theory Spec2Isabelle
  imports Main
begin

section \<open>Data model of the offline queue\<close>

text \<open>
  The offline queue manager (the second document of
  \<^verbatim>\<open>src/src/services/api/client.ts\<close>) keeps an array of references to mutable item
  objects.  The embedding makes the object store explicit: a reference is a natural
  number, \<open>heap\<close> maps references to item values and \<open>queue\<close> is the array of
  references.  JavaScript numbers are modelled as integers.
\<close>

datatype jval =
    JNull
  | JBool bool
  | JNum int
  | JStr string
  | JArr "jval list"
  | JObj "(string \<times> jval) list"

type_synonym jobject = "string \<Rightarrow> jval option"

fun truthy :: "jval \<Rightarrow> bool" where
  "truthy JNull = False"
| "truthy (JBool b) = b"
| "truthy (JNum n) = (n \<noteq> 0)"
| "truthy (JStr s) = (s \<noteq> [])"
| "truthy (JArr xs) = True"
| "truthy (JObj kvs) = True"

datatype ConflictResolution = client_wins | server_wins | merge | manual

datatype Status = pending | syncing | failed | completed

record OfflineQueueItem =
  item_id :: string
  item_type :: string
  payload :: jobject
  timestamp :: int
  retryCount :: int
  maxRetries :: int
  priority :: int
  conflictResolution :: ConflictResolution
  status :: Status
  errorMessage :: "string option"
  lastAttempt :: "int option"
  serverVersion :: "jval option"
  localVersion :: int

type_synonym ref = nat

datatype event =
    EvSetItem "OfflineQueueItem list" bool
  | EvListener nat "OfflineQueueItem list"
  | EvPost ref "string option" jobject
  | EvServerUpdate string jobject

text \<open>
  \<open>EvSetItem items ok\<close>: \<^verbatim>\<open>AsyncStorage.setItem\<close> was called with the serialised
  queue \<open>items\<close>; \<open>ok\<close> tells whether the store accepted the write.
  \<open>EvListener l items\<close>: subscriber \<open>l\<close> was called with the snapshot \<open>items\<close>.
  \<open>EvPost r endpoint body\<close>: \<^verbatim>\<open>apiClient.post\<close> was called for the queue object \<open>r\<close>.
  \<open>EvServerUpdate type data\<close>: \<^verbatim>\<open>emitServerUpdate\<close> was called.
\<close>

record OfflineQueueManager =
  heap :: "ref \<Rightarrow> OfflineQueueItem"
  next_ref :: ref
  queue :: "ref list"
  isProcessing :: bool
  isSyncing :: bool
  listeners :: "nat list"
  stored :: "OfflineQueueItem list option"
  trace :: "event list"

subsection \<open>Configuration constants (\<^verbatim>\<open>OFFLINE_CONFIG\<close>)\<close>

definition defaultMaxRetries :: int where
  "defaultMaxRetries = 5"

definition syncBatchSize :: nat where
  "syncBatchSize = 20"

definition defaultConflictResolution :: ConflictResolution where
  "defaultConflictResolution = client_wins"

section \<open>Queue primitives\<close>

text \<open>\<^verbatim>\<open>Array.prototype.findIndex\<close>: the index of the first match, \<open>None\<close> for \<open>-1\<close>.\<close>

fun find_index :: "('a \<Rightarrow> bool) \<Rightarrow> 'a list \<Rightarrow> nat option" where
  "find_index P [] = None"
| "find_index P (x # xs) = (if P x then Some 0 else map_option Suc (find_index P xs))"

definition findIndex :: "string \<Rightarrow> OfflineQueueManager \<Rightarrow> nat option" where
  "findIndex i s = find_index (\<lambda>q. item_id (heap s q) = i) (queue s)"

text \<open>The snapshot \<^verbatim>\<open>[...this.queue]\<close> (also what \<^verbatim>\<open>JSON.stringify\<close> serialises).\<close>

definition snapshot :: "OfflineQueueManager \<Rightarrow> OfflineQueueItem list" where
  "snapshot s = map (heap s) (queue s)"

text \<open>
  \<^verbatim>\<open>persistQueue\<close>: the write is attempted; a rejected write is caught and only logged
  to the console, so the caller continues either way.
\<close>

definition persistQueue :: "bool \<Rightarrow> OfflineQueueManager \<Rightarrow> OfflineQueueManager" where
  "persistQueue ok s =
     s\<lparr>stored := (if ok then Some (snapshot s) else stored s),
       trace := trace s @ [EvSetItem (snapshot s) ok]\<rparr>"

text \<open>
  \<^verbatim>\<open>notifyListeners\<close>: every subscriber is called, in the order of subscription, with a
  copy of the queue.  The subscribers are taken to return normally (one that throws
  would end the \<^verbatim>\<open>forEach\<close> and the calling operation).
\<close>

definition notifyListeners :: "OfflineQueueManager \<Rightarrow> OfflineQueueManager" where
  "notifyListeners s = s\<lparr>trace := trace s @ map (\<lambda>l. EvListener l (snapshot s)) (listeners s)\<rparr>"

subsection \<open>Default priority table\<close>

definition priorities :: "(string \<times> int) list" where
  "priorities =
     [(''attendance_check_in'', 100),
      (''attendance_check_out'', 100),
      (''task_update'', 80),
      (''report_submit'', 60),
      (''location_update'', 40),
      (''photo_upload'', 20)]"

text \<open>The closed union \<^verbatim>\<open>OfflineActionType\<close>; it exists at compile time only.\<close>

definition OfflineActionType :: "string list" where
  "OfflineActionType = map fst priorities"

text \<open>
  The names every object literal inherits from \<^verbatim>\<open>Object.prototype\<close>.  For these the
  source's lookup \<^verbatim>\<open>priorities[type]\<close> finds the inherited member, a function or an
  object and not a number.
\<close>

definition Object_prototype_members :: "string list" where
  "Object_prototype_members =
     [''constructor'', ''hasOwnProperty'', ''isPrototypeOf'', ''propertyIsEnumerable'',
      ''toLocaleString'', ''toString'', ''valueOf'', ''__proto__'',
      ''__defineGetter__'', ''__defineSetter__'', ''__lookupGetter__'', ''__lookupSetter__'']"

text \<open>
  \<^verbatim>\<open>priorities[type] || 50\<close>.  The lookup models the table's own properties.  It is the
  source's result for the six keys of the table and for every string that is not in
  \<open>Object_prototype_members\<close>; for a string of that list the source stores the
  inherited member as the priority, which the integer priority of the embedding cannot
  hold, so the model's value there stands for nothing in the source.
\<close>

definition getDefaultPriority :: "string \<Rightarrow> int" where
  "getDefaultPriority t =
     (case map_of priorities t of
        None \<Rightarrow> 50
      | Some p \<Rightarrow> if p = 0 then 50 else p)"

subsection \<open>Sorting\<close>

text \<open>The comparator passed to \<^verbatim>\<open>Array.prototype.sort\<close> in \<^verbatim>\<open>sortQueue\<close>.\<close>

definition compare_items :: "OfflineQueueItem \<Rightarrow> OfflineQueueItem \<Rightarrow> int" where
  "compare_items a b =
     (if priority a \<noteq> priority b then priority b - priority a
      else timestamp a - timestamp b)"

text \<open>
  \<^verbatim>\<open>Array.prototype.sort\<close> is a stable comparison sort; for a consistent comparator its
  result is the stable insertion sort below.
\<close>

fun insert_by :: "('a \<Rightarrow> 'a \<Rightarrow> int) \<Rightarrow> 'a \<Rightarrow> 'a list \<Rightarrow> 'a list" where
  "insert_by c x [] = [x]"
| "insert_by c x (y # ys) = (if c x y \<le> 0 then x # y # ys else y # insert_by c x ys)"

definition sort_by :: "('a \<Rightarrow> 'a \<Rightarrow> int) \<Rightarrow> 'a list \<Rightarrow> 'a list" where
  "sort_by c xs = foldr (insert_by c) xs []"

definition sortQueue :: "OfflineQueueManager \<Rightarrow> OfflineQueueManager" where
  "sortQueue s = s\<lparr>queue := sort_by (\<lambda>a b. compare_items (heap s a) (heap s b)) (queue s)\<rparr>"

section \<open>Enqueue\<close>

record enqueue_options =
  opt_priority :: "int option"
  opt_conflictResolution :: "ConflictResolution option"
  opt_maxRetries :: "int option"

text \<open>\<^verbatim>\<open>options?.field ?? dflt\<close>\<close>

definition option_or :: "enqueue_options option \<Rightarrow> (enqueue_options \<Rightarrow> 'a option) \<Rightarrow> 'a \<Rightarrow> 'a" where
  "option_or options field dflt =
     (case options of
        None \<Rightarrow> dflt
      | Some os \<Rightarrow> (case field os of None \<Rightarrow> dflt | Some v \<Rightarrow> v))"

text \<open>The object literal built by \<^verbatim>\<open>enqueue\<close>.\<close>

definition new_item ::
  "string \<Rightarrow> string \<Rightarrow> jobject \<Rightarrow> enqueue_options option \<Rightarrow> int \<Rightarrow> OfflineQueueItem" where
  "new_item uuid t p options now =
     \<lparr>item_id = uuid,
      item_type = t,
      payload = p,
      timestamp = now,
      retryCount = 0,
      maxRetries = option_or options opt_maxRetries defaultMaxRetries,
      priority = option_or options opt_priority (getDefaultPriority t),
      conflictResolution = option_or options opt_conflictResolution defaultConflictResolution,
      status = pending,
      errorMessage = None,
      lastAttempt = None,
      serverVersion = None,
      localVersion = 1\<rparr>"

text \<open>\<^verbatim>\<open>this.queue.push(item)\<close> with a freshly allocated object.\<close>

definition push :: "OfflineQueueItem \<Rightarrow> OfflineQueueManager \<Rightarrow> OfflineQueueManager" where
  "push item s =
     s\<lparr>heap := (heap s)(next_ref s := item),
       queue := queue s @ [next_ref s],
       next_ref := Suc (next_ref s)\<rparr>"

text \<open>
  The environment of one \<^verbatim>\<open>enqueue\<close> call: the value of \<^verbatim>\<open>uuidv4()\<close>, of
  \<^verbatim>\<open>Date.now()\<close>, whether the storage write is accepted, and \<^verbatim>\<open>netInfo.isConnected\<close>.
\<close>

record enqueue_env =
  env_uuid :: string
  env_now :: int
  env_write_ok :: bool
  env_connected :: bool

text \<open>
  \<^verbatim>\<open>enqueue\<close>, for the calls in which every subscriber returns normally and
  \<^verbatim>\<open>NetInfo.fetch\<close> resolves: it returns the id, the new manager state, and whether it
  invoked \<^verbatim>\<open>processQueue\<close> (fire and forget; that drain runs after \<^verbatim>\<open>enqueue\<close> has
  returned and is a call of its own).  The source contains no \<^verbatim>\<open>throw\<close> and no check
  of its arguments, and a failing storage write is caught in \<^verbatim>\<open>persistQueue\<close>.  A subscriber that throws, or a rejected \<^verbatim>\<open>NetInfo.fetch\<close>, rejects
  the promise after the item has been pushed, sorted and handed to the store; such calls
  are not modelled.
\<close>

definition enqueue ::
  "enqueue_env \<Rightarrow> string \<Rightarrow> jobject \<Rightarrow> enqueue_options option \<Rightarrow> OfflineQueueManager
     \<Rightarrow> string \<times> OfflineQueueManager \<times> bool" where
  "enqueue env t p options s =
     (let item = new_item (env_uuid env) t p options (env_now env);
          s1 = push item s;
          s2 = sortQueue s1;
          s3 = persistQueue (env_write_ok env) s2;
          s4 = notifyListeners s3
      in (env_uuid env, s4, env_connected env))"

section \<open>Executing one action\<close>

definition endpoints :: "(string \<times> string) list" where
  "endpoints =
     [(''attendance_check_in'', ''/attendance/check-in''),
      (''attendance_check_out'', ''/attendance/check-out''),
      (''task_update'', ''/tasks/update''),
      (''report_submit'', ''/reports/submit''),
      (''location_update'', ''/location/update''),
      (''photo_upload'', ''/uploads/photo'')]"

text \<open>The arguments \<^verbatim>\<open>executeAction\<close> passes to \<^verbatim>\<open>apiClient.post\<close>.\<close>

definition executeAction_request :: "OfflineQueueItem \<Rightarrow> string option \<times> jobject" where
  "executeAction_request item =
     (map_of endpoints (item_type item),
      (payload item)
        (''_offlineId'' \<mapsto> JStr (item_id item),
         ''_localVersion'' \<mapsto> JNum (localVersion item),
         ''_timestamp'' \<mapsto> JNum (timestamp item)))"

text \<open>The response object of the API client: \<open>success\<close>, optional \<open>data\<close>, optional \<open>error\<close>
  (code and message).\<close>

record ApiResponse =
  success :: bool
  data :: "jobject option"
  error :: "(string \<times> string) option"

text \<open>What a rejected promise carries: an \<^verbatim>\<open>Error\<close> with its message, or any other value.\<close>

datatype thrown = ErrorObject string | OtherValue

datatype api_outcome = Resolved ApiResponse | Rejected thrown

text \<open>\<^verbatim>\<open>String.prototype.includes\<close>\<close>

fun starts_with :: "string \<Rightarrow> string \<Rightarrow> bool" where
  "starts_with s [] = True"
| "starts_with [] (c # cs) = False"
| "starts_with (d # ds) (c # cs) = (d = c \<and> starts_with ds cs)"

fun includes_str :: "string \<Rightarrow> string \<Rightarrow> bool" where
  "includes_str [] sub = (sub = [])"
| "includes_str (d # ds) sub = (starts_with (d # ds) sub \<or> includes_str ds sub)"

text \<open>The object returned by \<^verbatim>\<open>executeAction\<close>; an absent \<open>conflict\<close> is falsy.\<close>

record action_result =
  r_success :: bool
  r_conflict :: bool
  r_serverData :: "jobject option"
  r_error :: "string option"

text \<open>
  \<^verbatim>\<open>data.serverData\<close>, declared as an object or absent; values of any other kind are
  outside the declared type and read as absent.
\<close>

definition serverData_of :: "jobject \<Rightarrow> jobject option" where
  "serverData_of d =
     (case d ''serverData'' of
        Some (JObj kvs) \<Rightarrow> Some (map_of kvs)
      | _ \<Rightarrow> None)"

text \<open>\<^verbatim>\<open>data?.conflict\<close> as a condition.\<close>

definition data_conflict :: "jobject \<Rightarrow> bool" where
  "data_conflict obj = (case obj ''conflict'' of None \<Rightarrow> False | Some v \<Rightarrow> truthy v)"

definition result_success :: action_result where
  "result_success = \<lparr>r_success = True, r_conflict = False, r_serverData = None, r_error = None\<rparr>"

text \<open>
  The part of \<^verbatim>\<open>executeAction\<close> after \<^verbatim>\<open>apiClient.post\<close> has settled.  The
  \<open>success\<close> field of the response is never read.
\<close>

definition executeAction_result :: "api_outcome \<Rightarrow> action_result" where
  "executeAction_result out =
     (case out of
        Resolved response \<Rightarrow>
          (case data response of
             None \<Rightarrow> result_success
           | Some obj \<Rightarrow>
               if data_conflict obj
               then \<lparr>r_success = False, r_conflict = True,
                     r_serverData = serverData_of obj, r_error = None\<rparr>
               else result_success)
      | Rejected (ErrorObject m) \<Rightarrow>
          (if includes_str m ''409''
           then \<lparr>r_success = False, r_conflict = True, r_serverData = None, r_error = None\<rparr>
           else \<lparr>r_success = False, r_conflict = False, r_serverData = None, r_error = Some m\<rparr>)
      | Rejected OtherValue \<Rightarrow>
          \<lparr>r_success = False, r_conflict = False, r_serverData = None,
           r_error = Some ''Network error''\<rparr>)"

text \<open>
  The three branches \<^verbatim>\<open>processItem\<close> takes on that result, named as the
  specification names them.
\<close>

datatype outcome = Success | Conflict "jobject option" | RetryableFailure string

definition classify :: "action_result \<Rightarrow> outcome" where
  "classify result =
     (if r_success result then Success
      else if r_conflict result then Conflict (r_serverData result)
      else RetryableFailure (case r_error result of None \<Rightarrow> [] | Some m \<Rightarrow> m))"

subsection \<open>The mock server's task update handler\<close>

text \<open>\<^verbatim>\<open>===\<close> on values that may be absent; objects and arrays compare by identity.\<close>

definition strict_eq :: "jval option \<Rightarrow> jval option \<Rightarrow> bool" where
  "strict_eq a b =
     (case (a, b) of
        (None, None) \<Rightarrow> True
      | (Some (JArr xs), Some y) \<Rightarrow> False
      | (Some (JObj kvs), Some y) \<Rightarrow> False
      | (Some x, Some y) \<Rightarrow> x = y
      | _ \<Rightarrow> False)"

text \<open>\<^verbatim>\<open>data?.id || data?.taskId\<close>\<close>

definition task_id_of :: "jobject option \<Rightarrow> jval option" where
  "task_id_of d =
     (case d of
        None \<Rightarrow> None
      | Some obj \<Rightarrow>
          (case obj ''id'' of
             Some v \<Rightarrow> if truthy v then Some v else obj ''taskId''
           | None \<Rightarrow> obj ''taskId''))"

text \<open>
  \<^verbatim>\<open>handleUpdateTask\<close>, the handler \<^verbatim>\<open>post\<close> routes \<^verbatim>\<open>/tasks/update\<close> to.  It takes
  the mock task table and returns the response with the updated table.
\<close>

fun update_first :: "('a \<Rightarrow> bool) \<Rightarrow> ('a \<Rightarrow> 'a) \<Rightarrow> 'a list \<Rightarrow> 'a list" where
  "update_first P f [] = []"
| "update_first P f (x # xs) = (if P x then f x # xs else x # update_first P f xs)"

definition handleUpdateTask ::
  "string \<Rightarrow> jobject list \<Rightarrow> jobject option \<Rightarrow> ApiResponse \<times> jobject list" where
  "handleUpdateTask nowIso mockTasks d =
     (let taskId = task_id_of d;
          hit = (\<lambda>t. strict_eq (t ''id'') taskId);
          assign = (\<lambda>t. (t ++ (case d of None \<Rightarrow> Map.empty | Some obj \<Rightarrow> obj))
                           (''updatedAt'' \<mapsto> JStr nowIso))
      in case find hit mockTasks of
           Some task \<Rightarrow>
             (\<lparr>success = True, data = Some (assign task), error = None\<rparr>,
              update_first hit assign mockTasks)
         | None \<Rightarrow>
             (\<lparr>success = False, data = None,
               error = Some (''NOT_FOUND'', ''Task not found'')\<rparr>,
              mockTasks))"

section \<open>Conflict resolution\<close>

text \<open>An assignment to a field of the object \<open>r\<close>.\<close>

definition upd_obj ::
  "ref \<Rightarrow> (OfflineQueueItem \<Rightarrow> OfflineQueueItem) \<Rightarrow> OfflineQueueManager \<Rightarrow> OfflineQueueManager" where
  "upd_obj r f s = s\<lparr>heap := (heap s)(r := f (heap s r))\<rparr>"

text \<open>\<^verbatim>\<open>this.queue = this.queue.filter(q => q.id !== id)\<close>\<close>

definition filter_out_id :: "string \<Rightarrow> OfflineQueueManager \<Rightarrow> OfflineQueueManager" where
  "filter_out_id i s = s\<lparr>queue := filter (\<lambda>q. item_id (heap s q) \<noteq> i) (queue s)\<rparr>"

text \<open>\<^verbatim>\<open>mergeChanges\<close>: the spread of server, then local, then the two tags.\<close>

definition mergeChanges :: "int \<Rightarrow> jobject \<Rightarrow> jobject \<Rightarrow> jobject" where
  "mergeChanges now local server =
     (server ++ local)(''_merged'' \<mapsto> JBool True, ''_mergedAt'' \<mapsto> JNum now)"

definition emitServerUpdate :: "string \<Rightarrow> jobject \<Rightarrow> OfflineQueueManager \<Rightarrow> OfflineQueueManager" where
  "emitServerUpdate t d s = s\<lparr>trace := trace s @ [EvServerUpdate t d]\<rparr>"

text \<open>
  \<^verbatim>\<open>handleConflict(item, serverData)\<close>.  \<open>item\<close> is the reference the caller holds;
  \<open>queue s ! itemIndex\<close> is the first queue entry with the same id.
\<close>

definition handleConflict ::
  "int \<Rightarrow> ref \<Rightarrow> jobject option \<Rightarrow> OfflineQueueManager \<Rightarrow> OfflineQueueManager" where
  "handleConflict now item serverData s =
     (case findIndex (item_id (heap s item)) s of
        None \<Rightarrow> s
      | Some itemIndex \<Rightarrow>
          (case conflictResolution (heap s item) of
             client_wins \<Rightarrow>
               (let s1 = upd_obj item (\<lambda>q. q\<lparr>localVersion := localVersion q + 1\<rparr>) s
                in upd_obj (queue s1 ! itemIndex) (\<lambda>q. q\<lparr>status := pending\<rparr>) s1)
           | server_wins \<Rightarrow>
               (let s1 = filter_out_id (item_id (heap s item)) s
                in case serverData of
                     None \<Rightarrow> s1
                   | Some d \<Rightarrow> emitServerUpdate (item_type (heap s1 item)) d s1)
           | merge \<Rightarrow>
               (let mergedPayload =
                      mergeChanges now (payload (heap s item))
                        (case serverData of None \<Rightarrow> Map.empty | Some d \<Rightarrow> d);
                    s1 = upd_obj (queue s ! itemIndex) (\<lambda>q. q\<lparr>payload := mergedPayload\<rparr>) s;
                    s2 = upd_obj (queue s1 ! itemIndex)
                           (\<lambda>q. q\<lparr>localVersion := localVersion q + 1\<rparr>) s1
                in upd_obj (queue s2 ! itemIndex) (\<lambda>q. q\<lparr>status := pending\<rparr>) s2)
           | manual \<Rightarrow>
               (let s1 = upd_obj (queue s ! itemIndex) (\<lambda>q. q\<lparr>status := failed\<rparr>) s;
                    s2 = upd_obj (queue s1 ! itemIndex)
                           (\<lambda>q. q\<lparr>errorMessage := Some ''Conflict requires manual resolution''\<rparr>) s1
                in upd_obj (queue s2 ! itemIndex)
                     (\<lambda>q. q\<lparr>serverVersion :=
                              (case serverData of None \<Rightarrow> None | Some d \<Rightarrow> d ''_version'')\<rparr>) s2)))"

section \<open>Processing one item\<close>

datatype error = TypeError

text \<open>\<^verbatim>\<open>this.queue[itemIndex]\<close>; \<open>None\<close> is \<^verbatim>\<open>undefined\<close>, on which a field access throws.\<close>

definition at_index :: "nat \<Rightarrow> OfflineQueueManager \<Rightarrow> ref option" where
  "at_index i s = (if i < length (queue s) then Some (queue s ! i) else None)"

text \<open>
  \<^verbatim>\<open>processItem\<close> up to the point where it is suspended in \<^verbatim>\<open>executeAction\<close>, waiting
  for \<^verbatim>\<open>apiClient.post\<close>: \<open>None\<close> when the item is no longer queued, else the index
  found and the state with the request sent.
\<close>

definition processItem_begin ::
  "int \<Rightarrow> ref \<Rightarrow> OfflineQueueManager \<Rightarrow> (nat \<times> OfflineQueueManager) option" where
  "processItem_begin now item s =
     (case findIndex (item_id (heap s item)) s of
        None \<Rightarrow> None
      | Some itemIndex \<Rightarrow>
          (let s1 = upd_obj (queue s ! itemIndex) (\<lambda>q. q\<lparr>status := syncing\<rparr>) s;
               s2 = upd_obj (queue s1 ! itemIndex) (\<lambda>q. q\<lparr>lastAttempt := Some now\<rparr>) s1;
               req = executeAction_request (heap s2 item)
           in Some (itemIndex, s2\<lparr>trace := trace s2 @ [EvPost item (fst req) (snd req)]\<rparr>)))"

text \<open>
  The \<^verbatim>\<open>catch\<close> block of \<^verbatim>\<open>processItem\<close>.  When \<^verbatim>\<open>this.queue[itemIndex]\<close> is
  undefined its first statement throws, and the exception leaves \<^verbatim>\<open>processItem\<close>.
\<close>

definition catch_block ::
  "ref \<Rightarrow> nat \<Rightarrow> string \<Rightarrow> OfflineQueueManager \<Rightarrow> error option \<times> OfflineQueueManager" where
  "catch_block item itemIndex msg s =
     (case at_index itemIndex s of
        None \<Rightarrow> (Some TypeError, s)
      | Some q \<Rightarrow>
          (let s1 = upd_obj q (\<lambda>x. x\<lparr>retryCount := retryCount x + 1\<rparr>) s;
               s2 = upd_obj q (\<lambda>x. x\<lparr>errorMessage := Some msg\<rparr>) s1
           in if retryCount (heap s2 q) \<ge> maxRetries (heap s2 item)
              then (None, upd_obj q (\<lambda>x. x\<lparr>status := failed\<rparr>) s2)
              else (None, upd_obj q (\<lambda>x. x\<lparr>status := pending\<rparr>) s2)))"

text \<open>
  \<^verbatim>\<open>processItem\<close> from the point where \<^verbatim>\<open>executeAction\<close> has returned \<open>result\<close>.
  A \<^verbatim>\<open>TypeError\<close> of the \<^verbatim>\<open>try\<close> block is caught and thrown again by the first
  statement of the \<^verbatim>\<open>catch\<close> block.
\<close>

definition processItem_finish ::
  "int \<Rightarrow> ref \<Rightarrow> nat \<Rightarrow> action_result \<Rightarrow> OfflineQueueManager
     \<Rightarrow> error option \<times> OfflineQueueManager" where
  "processItem_finish now item itemIndex result s =
     (case classify result of
        Success \<Rightarrow>
          (case at_index itemIndex s of
             None \<Rightarrow> (Some TypeError, s)
           | Some q \<Rightarrow>
               (let s1 = upd_obj q (\<lambda>x. x\<lparr>status := completed\<rparr>) s
                in (None, filter_out_id (item_id (heap s1 item)) s1)))
      | Conflict serverData \<Rightarrow> (None, handleConflict now item serverData s)
      | RetryableFailure msg \<Rightarrow> catch_block item itemIndex msg s)"

text \<open>
  One attempt as the environment decides it: the clock when the attempt starts, how
  \<^verbatim>\<open>apiClient.post\<close> settles, and the clock when the result is handled.
\<close>

record attempt_env =
  at_now :: int
  at_outcome :: api_outcome
  at_later :: int

definition processItem ::
  "attempt_env \<Rightarrow> ref \<Rightarrow> OfflineQueueManager \<Rightarrow> error option \<times> OfflineQueueManager" where
  "processItem e item s =
     (case processItem_begin (at_now e) item s of
        None \<Rightarrow> (None, s)
      | Some (itemIndex, s1) \<Rightarrow>
          processItem_finish (at_later e) item itemIndex (executeAction_result (at_outcome e)) s1)"

section \<open>Draining the queue\<close>

text \<open>The \<^verbatim>\<open>for\<close> loop over the batch; an exception ends it.\<close>

fun processBatch ::
  "(nat \<Rightarrow> attempt_env) \<Rightarrow> nat \<Rightarrow> ref list \<Rightarrow> OfflineQueueManager
     \<Rightarrow> error option \<times> OfflineQueueManager" where
  "processBatch w k [] s = (None, s)"
| "processBatch w k (item # rest) s =
     (case processItem (w k) item s of
        (Some e, s1) \<Rightarrow> (Some e, s1)
      | (None, s1) \<Rightarrow> processBatch w (Suc k) rest s1)"

definition selectable :: "OfflineQueueItem \<Rightarrow> bool" where
  "selectable item = (status item = pending \<or> status item = failed)"

definition select_batch :: "OfflineQueueManager \<Rightarrow> ref list" where
  "select_batch s = take syncBatchSize (filter (\<lambda>r. selectable (heap s r)) (queue s))"

definition set_flags :: "bool \<Rightarrow> OfflineQueueManager \<Rightarrow> OfflineQueueManager" where
  "set_flags b s = s\<lparr>isProcessing := b, isSyncing := b\<rparr>"

record drain_env =
  dr_connected :: bool
  dr_attempt :: "nat \<Rightarrow> attempt_env"
  dr_write_ok :: bool

text \<open>
  \<^verbatim>\<open>processQueue\<close> run without interruption.  The result carries the exception the
  returned promise is rejected with, if any.
\<close>

definition processQueue ::
  "drain_env \<Rightarrow> OfflineQueueManager \<Rightarrow> error option \<times> OfflineQueueManager" where
  "processQueue env s =
     (if isProcessing s \<or> queue s = [] then (None, s)
      else if \<not> dr_connected env then (None, s)
      else
        (let s1 = set_flags True s;
             batch = select_batch s1;
             (err, s2) = processBatch (dr_attempt env) 0 batch s1;
             s3 = set_flags False s2;
             s4 = persistQueue (dr_write_ok env) s3
         in (err, notifyListeners s4)))"

section \<open>The remaining public operations\<close>

definition removeItem :: "bool \<Rightarrow> string \<Rightarrow> OfflineQueueManager \<Rightarrow> OfflineQueueManager" where
  "removeItem write_ok i s = notifyListeners (persistQueue write_ok (filter_out_id i s))"

text \<open>
  \<^verbatim>\<open>retryItem\<close> and \<^verbatim>\<open>retryAllFailed\<close> return the state at the moment they invoke
  \<^verbatim>\<open>processQueue\<close> (not awaited), and whether they invoked it.
\<close>

definition retryItem ::
  "bool \<Rightarrow> string \<Rightarrow> OfflineQueueManager \<Rightarrow> OfflineQueueManager \<times> bool" where
  "retryItem write_ok i s =
     (case findIndex i s of
        None \<Rightarrow> (s, False)
      | Some itemIndex \<Rightarrow>
          (let s1 = upd_obj (queue s ! itemIndex) (\<lambda>q. q\<lparr>status := pending\<rparr>) s;
               s2 = upd_obj (queue s1 ! itemIndex) (\<lambda>q. q\<lparr>retryCount := 0\<rparr>) s1
           in (persistQueue write_ok s2, True)))"

text \<open>The body of the \<^verbatim>\<open>forEach\<close> callback; \<open>item\<close> is \<^verbatim>\<open>this.queue[index]\<close> itself.\<close>

definition retry_if_failed :: "ref \<Rightarrow> OfflineQueueManager \<Rightarrow> OfflineQueueManager" where
  "retry_if_failed item s =
     (if status (heap s item) = failed
      then upd_obj item (\<lambda>q. q\<lparr>retryCount := 0\<rparr>) (upd_obj item (\<lambda>q. q\<lparr>status := pending\<rparr>) s)
      else s)"

definition retryAllFailed :: "bool \<Rightarrow> OfflineQueueManager \<Rightarrow> OfflineQueueManager \<times> bool" where
  "retryAllFailed write_ok s = (persistQueue write_ok (fold retry_if_failed (queue s) s), True)"

text \<open>\<^verbatim>\<open>clearOldItems(maxAgeMs = 24 * 60 * 60 * 1000)\<close>\<close>

definition clearOldItems ::
  "int \<Rightarrow> bool \<Rightarrow> int option \<Rightarrow> OfflineQueueManager \<Rightarrow> OfflineQueueManager" where
  "clearOldItems now write_ok maxAgeMs s =
     (let cutoff = now - (case maxAgeMs of None \<Rightarrow> 24 * 60 * 60 * 1000 | Some m \<Rightarrow> m)
      in persistQueue write_ok
           (s\<lparr>queue := filter (\<lambda>q. status (heap s q) \<noteq> completed \<or> timestamp (heap s q) > cutoff)
                          (queue s)\<rparr>))"

definition getQueue :: "OfflineQueueManager \<Rightarrow> OfflineQueueItem list" where
  "getQueue s = snapshot s"

definition subscribe :: "nat \<Rightarrow> OfflineQueueManager \<Rightarrow> OfflineQueueManager" where
  "subscribe l s = s\<lparr>listeners := (if l \<in> set (listeners s) then listeners s else listeners s @ [l])\<rparr>"

definition unsubscribe :: "nat \<Rightarrow> OfflineQueueManager \<Rightarrow> OfflineQueueManager" where
  "unsubscribe l s = s\<lparr>listeners := removeAll l (listeners s)\<rparr>"

text \<open>
  \<^verbatim>\<open>initialize\<close>: the stored array is parsed into fresh objects, which become the queue
  as they are (no sorting).
\<close>

definition initialize :: "OfflineQueueManager \<Rightarrow> OfflineQueueManager" where
  "initialize s =
     (case stored s of
        None \<Rightarrow> s
      | Some items \<Rightarrow>
          s\<lparr>heap := (\<lambda>r. if next_ref s \<le> r \<and> r < next_ref s + length items
                          then items ! (r - next_ref s) else heap s r),
            queue := [next_ref s ..< next_ref s + length items],
            next_ref := next_ref s + length items\<rparr>)"

text \<open>
  The manager of a newly started process; only the durable store survives a restart.
  No object is allocated yet: the heap's value at a reference at or above \<open>next_ref\<close>
  is a placeholder that no operation reads before writing it.
\<close>

definition new_manager :: "OfflineQueueItem list option \<Rightarrow> OfflineQueueManager" where
  "new_manager disk =
     \<lparr>heap = (\<lambda>r. new_item [] [] Map.empty None 0),
      next_ref = 0,
      queue = [],
      isProcessing = False,
      isSyncing = False,
      listeners = [],
      stored = disk,
      trace = []\<rparr>"

text \<open>The manager of a process restarted on a durable store holding \<open>items\<close>.\<close>

definition restarted :: "OfflineQueueItem list \<Rightarrow> OfflineQueueManager" where
  "restarted items = initialize (new_manager (Some items))"

section \<open>Suspension points of a drain\<close>

text \<open>
  \<^verbatim>\<open>processQueue\<close> is an \<^verbatim>\<open>async\<close> function: it runs until an \<^verbatim>\<open>await\<close>, is suspended
  there and is resumed when the awaited promise settles; between two suspension points
  nothing else runs.  An invocation is at one of these points.
\<close>

datatype pc =
    NotCalled
  | AwaitNetInfo
  | AwaitPost ref nat "ref list"
  | AwaitSetItem "OfflineQueueItem list" "error option"
  | Returned "error option"

text \<open>What resumes an invocation, with the clock at that moment.\<close>

datatype resume =
    Call
  | NetInfo bool
  | PostSettled api_outcome
  | SetItemSettled bool

text \<open>
  The \<^verbatim>\<open>finally\<close> block up to its \<^verbatim>\<open>await\<close>: the flags are cleared and
  \<^verbatim>\<open>persistQueue\<close> hands the serialised queue to the store.
\<close>

definition finally_begin ::
  "error option \<Rightarrow> OfflineQueueManager \<Rightarrow> pc \<times> OfflineQueueManager" where
  "finally_begin err s = (let s1 = set_flags False s in (AwaitSetItem (snapshot s1) err, s1))"

text \<open>The loop from its current position to the next suspension.\<close>

fun advance :: "int \<Rightarrow> ref list \<Rightarrow> OfflineQueueManager \<Rightarrow> pc \<times> OfflineQueueManager" where
  "advance now [] s = finally_begin None s"
| "advance now (item # rest) s =
     (case processItem_begin now item s of
        None \<Rightarrow> advance now rest s
      | Some (itemIndex, s1) \<Rightarrow> (AwaitPost item itemIndex rest, s1))"

text \<open>One resumption of an invocation; \<open>None\<close> when the event is not the awaited one.\<close>

fun step ::
  "int \<Rightarrow> resume \<Rightarrow> pc \<Rightarrow> OfflineQueueManager \<Rightarrow> (pc \<times> OfflineQueueManager) option" where
  "step now Call NotCalled s =
     (if isProcessing s \<or> queue s = [] then Some (Returned None, s)
      else Some (AwaitNetInfo, s))"
| "step now (NetInfo connected) AwaitNetInfo s =
     (if \<not> connected then Some (Returned None, s)
      else (let s1 = set_flags True s in Some (advance now (select_batch s1) s1)))"
| "step now (PostSettled out) (AwaitPost item itemIndex rest) s =
     (case processItem_finish now item itemIndex (executeAction_result out) s of
        (Some e, s1) \<Rightarrow> Some (finally_begin (Some e) s1)
      | (None, s1) \<Rightarrow> Some (advance now rest s1))"
| "step now (SetItemSettled ok) (AwaitSetItem items err) s =
     Some (Returned err,
           notifyListeners
             (s\<lparr>stored := (if ok then Some items else stored s),
                trace := trace s @ [EvSetItem items ok]\<rparr>))"
| "step now ev p s = None"

text \<open>
  Two invocations \<open>A\<close> and \<open>B\<close> of \<^verbatim>\<open>processQueue\<close> on the same manager, and a
  schedule: which invocation is resumed next, by what, at what time.
\<close>

datatype invocation = A | B

record system =
  mgr :: OfflineQueueManager
  pcA :: pc
  pcB :: pc

fun run :: "(invocation \<times> int \<times> resume) list \<Rightarrow> system \<Rightarrow> system option" where
  "run [] sys = Some sys"
| "run ((A, now, ev) # sched) sys =
     (case step now ev (pcA sys) (mgr sys) of
        None \<Rightarrow> None
      | Some (p, s) \<Rightarrow> run sched (sys\<lparr>mgr := s, pcA := p\<rparr>))"
| "run ((B, now, ev) # sched) sys =
     (case step now ev (pcB sys) (mgr sys) of
        None \<Rightarrow> None
      | Some (p, s) \<Rightarrow> run sched (sys\<lparr>mgr := s, pcB := p\<rparr>))"

text \<open>The calls to \<^verbatim>\<open>apiClient.post\<close> recorded in a trace, by queue object.\<close>

fun posts :: "event list \<Rightarrow> ref list" where
  "posts [] = []"
| "posts (EvPost r e b # es) = r # posts es"
| "posts (ev # es) = posts es"

section \<open>An invocation that nothing interrupts\<close>

text \<open>One invocation resumed by the events of a list, all at the same clock reading.\<close>

fun run_one ::
  "int \<Rightarrow> resume list \<Rightarrow> pc \<times> OfflineQueueManager \<Rightarrow> (pc \<times> OfflineQueueManager) option" where
  "run_one now [] ps = Some ps"
| "run_one now (ev # evs) ps =
     (case step now ev (fst ps) (snd ps) of
        None \<Rightarrow> None
      | Some ps' \<Rightarrow> run_one now evs ps')"

text \<open>
  The settlements of \<^verbatim>\<open>apiClient.post\<close> that the environment \<open>w\<close> of \<open>processBatch\<close>
  provides, one for each item of the batch that is attempted.
\<close>

fun settlements ::
  "(nat \<Rightarrow> attempt_env) \<Rightarrow> int \<Rightarrow> nat \<Rightarrow> ref list \<Rightarrow> OfflineQueueManager \<Rightarrow> resume list" where
  "settlements w now k [] s = []"
| "settlements w now k (item # rest) s =
     (case processItem_begin now item s of
        None \<Rightarrow> settlements w now (Suc k) rest s
      | Some (itemIndex, s1) \<Rightarrow>
          PostSettled (at_outcome (w k)) #
          (case processItem_finish now item itemIndex (executeAction_result (at_outcome (w k))) s1 of
             (Some e, s2) \<Rightarrow> []
           | (None, s2) \<Rightarrow> settlements w now (Suc k) rest s2))"

definition drain_schedule :: "drain_env \<Rightarrow> int \<Rightarrow> OfflineQueueManager \<Rightarrow> resume list" where
  "drain_schedule env now s =
     Call #
     (if isProcessing s \<or> queue s = [] then []
      else NetInfo (dr_connected env) #
        (if \<not> dr_connected env then []
         else settlements (dr_attempt env) now 0 (select_batch (set_flags True s)) (set_flags True s) @
              [SetItemSettled (dr_write_ok env)]))"

section \<open>Observations on traces\<close>

text \<open>Events that are neither a storage write nor a call of a subscriber.\<close>

fun quiet :: "event \<Rightarrow> bool" where
  "quiet (EvPost r e b) = True"
| "quiet (EvServerUpdate t d) = True"
| "quiet (EvSetItem items ok) = False"
| "quiet (EvListener l items) = False"

text \<open>
  \<open>io_only s s'\<close>: from \<open>s\<close> to \<open>s'\<close> the trace grew by quiet events only, and neither the
  subscribers nor the durable store changed.
\<close>

definition io_only :: "OfflineQueueManager \<Rightarrow> OfflineQueueManager \<Rightarrow> bool" where
  "io_only s s' \<longleftrightarrow>
     (\<exists>pre. list_all quiet pre \<and> trace s' = trace s @ pre) \<and>
     listeners s' = listeners s \<and> stored s' = stored s"

text \<open>What a trace shows of an event: its kind, and the ids of the queue it carries.\<close>

datatype event_kind = Write bool | Notify nat | Post | ServerUpdate

fun view :: "event \<Rightarrow> event_kind \<times> string list" where
  "view (EvSetItem items ok) = (Write ok, map item_id items)"
| "view (EvListener l items) = (Notify l, map item_id items)"
| "view (EvPost r e b) = (Post, [])"
| "view (EvServerUpdate t d) = (ServerUpdate, [])"

text \<open>Status, retry count and retry maximum of the queued items.\<close>

definition budget_view :: "OfflineQueueManager \<Rightarrow> (Status \<times> int \<times> int) list" where
  "budget_view s = map (\<lambda>q. (status q, retryCount q, maxRetries q)) (snapshot s)"

text \<open>Where an invocation stands, without the data it carries.\<close>

fun suspended_at_NetInfo :: "pc \<Rightarrow> bool" where
  "suspended_at_NetInfo AwaitNetInfo = True"
| "suspended_at_NetInfo p = False"

fun rejected_with :: "pc \<Rightarrow> error option" where
  "rejected_with (Returned err) = err"
| "rejected_with p = None"

fun has_returned :: "pc \<Rightarrow> bool" where
  "has_returned (Returned err) = True"
| "has_returned p = False"

text \<open>The posts recorded after a schedule has run.\<close>

definition posts_of_run :: "(invocation \<times> int \<times> resume) list \<Rightarrow> system \<Rightarrow> ref list option" where
  "posts_of_run sched sys = map_option (\<lambda>r. posts (trace (mgr r))) (run sched sys)"

section \<open>The ordering invariant\<close>

text \<open>Priority descending, then timestamp ascending.\<close>

definition in_order :: "OfflineQueueItem \<Rightarrow> OfflineQueueItem \<Rightarrow> bool" where
  "in_order a b \<longleftrightarrow>
     priority a > priority b \<or> (priority a = priority b \<and> timestamp a \<le> timestamp b)"

definition ordered :: "OfflineQueueManager \<Rightarrow> bool" where
  "ordered s \<longleftrightarrow> sorted_wrt in_order (snapshot s)"

definition stored_ordered :: "OfflineQueueManager \<Rightarrow> bool" where
  "stored_ordered s \<longleftrightarrow> (case stored s of None \<Rightarrow> True | Some items \<Rightarrow> sorted_wrt in_order items)"

text \<open>
  \<open>narrows s s'\<close>: from \<open>s\<close> to \<open>s'\<close> no object changed its id, priority or
  timestamp, no object was allocated, and the queue only lost entries.
\<close>

definition narrows :: "OfflineQueueManager \<Rightarrow> OfflineQueueManager \<Rightarrow> bool" where
  "narrows s s' \<longleftrightarrow>
     (\<forall>r. priority (heap s' r) = priority (heap s r) \<and>
          timestamp (heap s' r) = timestamp (heap s r) \<and>
          item_id (heap s' r) = item_id (heap s r)) \<and>
     next_ref s' = next_ref s \<and>
     (\<exists>P. queue s' = filter P (queue s))"

text \<open>
  The states of the manager over its lifetime: a first start on an empty store, restarts
  on whatever the store holds, and the public operations in any order with any
  environment, each run to completion.
\<close>

inductive reachable :: "OfflineQueueManager \<Rightarrow> bool" where
  first_start: "reachable (new_manager None)"
| restart: "reachable s \<Longrightarrow> reachable (new_manager (stored s))"
| do_initialize: "reachable s \<Longrightarrow> reachable (initialize s)"
| do_enqueue: "reachable s \<Longrightarrow> reachable (fst (snd (enqueue env t p options s)))"
| do_processQueue: "reachable s \<Longrightarrow> reachable (snd (processQueue denv s))"
| do_removeItem: "reachable s \<Longrightarrow> reachable (removeItem write_ok i s)"
| do_retryItem: "reachable s \<Longrightarrow> reachable (fst (retryItem write_ok i s))"
| do_retryAllFailed: "reachable s \<Longrightarrow> reachable (fst (retryAllFailed write_ok s))"
| do_clearOldItems: "reachable s \<Longrightarrow> reachable (clearOldItems now write_ok maxAgeMs s)"
| do_subscribe: "reachable s \<Longrightarrow> reachable (subscribe l s)"
| do_unsubscribe: "reachable s \<Longrightarrow> reachable (unsubscribe l s)"

section \<open>Well-formed queues\<close>

text \<open>
  The queued items have pairwise different ids, every queued reference is allocated, and
  the stored items have pairwise different ids.
\<close>

definition ids_distinct :: "OfflineQueueManager \<Rightarrow> bool" where
  "ids_distinct s \<longleftrightarrow> distinct (map (\<lambda>q. item_id (heap s q)) (queue s))"

definition refs_allocated :: "OfflineQueueManager \<Rightarrow> bool" where
  "refs_allocated s \<longleftrightarrow> list_all (\<lambda>r. r < next_ref s) (queue s)"

definition well_formed :: "OfflineQueueManager \<Rightarrow> bool" where
  "well_formed s \<longleftrightarrow>
     ids_distinct s \<and> refs_allocated s \<and>
     (case stored s of None \<Rightarrow> True | Some items \<Rightarrow> distinct (map item_id items))"

section \<open>Concrete inputs\<close>

definition ex_env :: enqueue_env where
  "ex_env = \<lparr>env_uuid = ''u-1'', env_now = 1000, env_write_ok = True, env_connected = False\<rparr>"

definition ex_item :: "string \<Rightarrow> Status \<Rightarrow> int \<Rightarrow> OfflineQueueItem" where
  "ex_item i st ts =
     (new_item i ''task_update'' Map.empty None ts)\<lparr>status := st\<rparr>"

definition ex_queue :: OfflineQueueManager where
  "ex_queue =
     restarted [(ex_item ''a'' failed 10)\<lparr>retryCount := 5\<rparr>,
                ex_item ''b'' pending 20,
                (ex_item ''c'' failed 30)\<lparr>retryCount := 2\<rparr>]"

definition ex_conflict_item :: "string \<Rightarrow> ConflictResolution \<Rightarrow> OfflineQueueItem" where
  "ex_conflict_item i cr =
     (new_item i ''report_submit'' [''title'' \<mapsto> JStr ''local'']
        (Some \<lparr>opt_priority = None, opt_conflictResolution = Some cr, opt_maxRetries = None\<rparr>) 0)
       \<lparr>status := syncing\<rparr>"

definition ex_conflicts :: OfflineQueueManager where
  "ex_conflicts =
     restarted [ex_conflict_item ''cw'' client_wins, ex_conflict_item ''sw'' server_wins,
                ex_conflict_item ''mg'' merge, ex_conflict_item ''mn'' manual]"

definition ex_server :: jobject where
  "ex_server = [''title'' \<mapsto> JStr ''remote'', ''owner'' \<mapsto> JStr ''ann'', ''_version'' \<mapsto> JNum 7]"

text \<open>The ids of the four tasks of the mock task table.\<close>

definition ex_mockTasks :: "jobject list" where
  "ex_mockTasks =
     [[''id'' \<mapsto> JStr ''task-1''], [''id'' \<mapsto> JStr ''task-2''],
      [''id'' \<mapsto> JStr ''task-3''], [''id'' \<mapsto> JStr ''task-4'']]"

definition ex_task_update :: OfflineQueueItem where
  "ex_task_update =
     new_item ''u-7'' ''task_update''
       [''taskId'' \<mapsto> JStr ''task-99'', ''status'' \<mapsto> JStr ''in_progress''] None 1000"

text \<open>The response of the mock server to the request \<^verbatim>\<open>executeAction\<close> sends for it.\<close>

definition ex_not_found :: ApiResponse where
  "ex_not_found =
     fst (handleUpdateTask ''2024-01-20T00:00:00Z'' ex_mockTasks
            (Some (snd (executeAction_request ex_task_update))))"

text \<open>A drain in which every request is rejected with a network error.\<close>

definition ex_offline_server :: drain_env where
  "ex_offline_server =
     \<lparr>dr_connected = True,
      dr_attempt = (\<lambda>k. \<lparr>at_now = 5000, at_outcome = Rejected (ErrorObject ''Network request failed''),
                          at_later = 5500\<rparr>),
      dr_write_ok = True\<rparr>"

text \<open>One check-in enqueued with \<open>maxRetries = 2\<close> on a new manager.\<close>

definition ex_budget_two :: OfflineQueueManager where
  "ex_budget_two =
     fst (snd (enqueue ex_env ''attendance_check_in'' Map.empty
       (Some \<lparr>opt_priority = None, opt_conflictResolution = None, opt_maxRetries = Some 2\<rparr>)
       (new_manager None)))"

text \<open>\<open>n\<close> drains in a row against that server.\<close>

definition drains :: "nat \<Rightarrow> OfflineQueueManager \<Rightarrow> OfflineQueueManager" where
  "drains n s = ((\<lambda>x. snd (processQueue ex_offline_server x)) ^^ n) s"

text \<open>Two pending location updates, loaded from the durable store.\<close>

definition ex_location :: "string \<Rightarrow> int \<Rightarrow> OfflineQueueItem" where
  "ex_location i ts = new_item i ''location_update'' [''lat'' \<mapsto> JNum 52] None ts"

definition ex_two_pending :: system where
  "ex_two_pending =
     \<lparr>mgr = restarted [ex_location ''loc-1'' 100, ex_location ''loc-2'' 200],
      pcA = NotCalled,
      pcB = NotCalled\<rparr>"

text \<open>
  The mock server's answer to a request it has no handler for: success, with the
  request body as data.
\<close>

definition ex_ack :: "OfflineQueueItem \<Rightarrow> api_outcome" where
  "ex_ack item =
     Resolved \<lparr>success = True, data = Some (snd (executeAction_request item)), error = None\<rparr>"

text \<open>
  \<^verbatim>\<open>processQueue\<close> is called twice in a row; then the promises settle in the order in
  which they were created.
\<close>

definition ex_calls :: "(invocation \<times> int \<times> resume) list" where
  "ex_calls = [(A, 1000, Call), (B, 1000, Call)]"

definition ex_schedule :: "(invocation \<times> int \<times> resume) list" where
  "ex_schedule =
     ex_calls @
     [(A, 1010, NetInfo True),
      (B, 1011, NetInfo True),
      (A, 1510, PostSettled (ex_ack (ex_location ''loc-1'' 100))),
      (B, 1511, PostSettled (ex_ack (ex_location ''loc-2'' 200))),
      (A, 2010, PostSettled (ex_ack (ex_location ''loc-2'' 200))),
      (B, 2011, SetItemSettled True),
      (A, 2012, SetItemSettled True)]"

text \<open>A restarted manager with two stored items and one subscriber.\<close>

definition ex_subscribed :: OfflineQueueManager where
  "ex_subscribed = subscribe 7 (restarted [ex_location ''loc-1'' 100, ex_location ''loc-2'' 200])"

text \<open>A drain in which every request is acknowledged.\<close>

definition ex_all_ack :: drain_env where
  "ex_all_ack =
     \<lparr>dr_connected = True,
      dr_attempt = (\<lambda>k. \<lparr>at_now = 3000,
                          at_outcome = Resolved \<lparr>success = True, data = None, error = None\<rparr>,
                          at_later = 3100\<rparr>),
      dr_write_ok = True\<rparr>"

text \<open>Four items enqueued while offline, in this order, on a new manager.\<close>

definition ex_offline_at :: "string \<Rightarrow> int \<Rightarrow> enqueue_env" where
  "ex_offline_at i now = \<lparr>env_uuid = i, env_now = now, env_write_ok = True, env_connected = False\<rparr>"

definition ex_four :: OfflineQueueManager where
  "ex_four =
     fst (snd (enqueue (ex_offline_at ''out'' 1800) ''attendance_check_out'' Map.empty None
    (fst (snd (enqueue (ex_offline_at ''task'' 1500) ''task_update'' Map.empty None
    (fst (snd (enqueue (ex_offline_at ''in'' 2000) ''attendance_check_in'' Map.empty None
    (fst (snd (enqueue (ex_offline_at ''photo'' 1000) ''photo_upload'' Map.empty None
       (new_manager None))))))))))))"

text \<open>
  Three completed items one millisecond apart; with the clock at 1000 and a maximal age
  of 600 the cutoff is the timestamp of the second.
\<close>

definition ex_boundary :: OfflineQueueManager where
  "ex_boundary =
     restarted [ex_item ''x'' completed 399, ex_item ''y'' completed 400,
                ex_item ''z'' completed 401]"


section \<open>Properties\<close>

subsection \<open>Basic facts about sorting and enqueue\<close>

lemma set_insert_by: "set (insert_by c x xs) = insert x (set xs)"
  by (induction xs) auto

lemma set_sort_by: "set (sort_by c xs) = set xs"
  unfolding sort_by_def by (induction xs) (simp_all add: set_insert_by)

lemma heap_enqueue:
  "heap (fst (snd (enqueue env t p options s))) =
     (heap s)(next_ref s := new_item (env_uuid env) t p options (env_now env))"
  by (simp add: enqueue_def Let_def notifyListeners_def persistQueue_def sortQueue_def push_def)

lemma queue_enqueue:
  "set (queue (fst (snd (enqueue env t p options s)))) = insert (next_ref s) (set (queue s))"
  by (simp add: enqueue_def Let_def notifyListeners_def persistQueue_def sortQueue_def push_def
      set_sort_by)

subsection \<open>Initial fields of an enqueued item\<close>

text \<open>
  Claim C8.  The item created by \<open>enqueue\<close> is in the queue and starts with status
  pending, local version 1 and retry count 0; its priority is the caller's override if
  there is one and otherwise the entry of the static table for its action type (check-in
  and check-out 100, task update 80, report submit 60, location update 40, photo upload
  20); its conflict resolution is the caller's override if there is one and otherwise
  the configured default, which is client wins.
\<close>

theorem enqueue_initial_fields:
  "getDefaultPriority ''attendance_check_in'' = 100 \<and>
   getDefaultPriority ''attendance_check_out'' = 100 \<and>
   getDefaultPriority ''task_update'' = 80 \<and>
   getDefaultPriority ''report_submit'' = 60 \<and>
   getDefaultPriority ''location_update'' = 40 \<and>
   getDefaultPriority ''photo_upload'' = 20 \<and>
   defaultConflictResolution = client_wins \<and>
   (\<forall>env t p options s.
      (let s' = fst (snd (enqueue env t p options s));
           item = heap s' (next_ref s)
       in next_ref s \<in> set (queue s') \<and>
          item_id item = fst (enqueue env t p options s) \<and>
          item_type item = t \<and>
          payload item = p \<and>
          status item = pending \<and>
          localVersion item = 1 \<and>
          retryCount item = 0 \<and>
          priority item =
            (case options of
               None \<Rightarrow> getDefaultPriority t
             | Some os \<Rightarrow> (case opt_priority os of None \<Rightarrow> getDefaultPriority t | Some v \<Rightarrow> v)) \<and>
          conflictResolution item =
            (case options of
               None \<Rightarrow> defaultConflictResolution
             | Some os \<Rightarrow>
                 (case opt_conflictResolution os of
                    None \<Rightarrow> defaultConflictResolution
                  | Some v \<Rightarrow> v))))"
proof -
  have tbl: "getDefaultPriority ''attendance_check_in'' = 100"
    "getDefaultPriority ''attendance_check_out'' = 100"
    "getDefaultPriority ''task_update'' = 80"
    "getDefaultPriority ''report_submit'' = 60"
    "getDefaultPriority ''location_update'' = 40"
    "getDefaultPriority ''photo_upload'' = 20"
    by (simp_all add: getDefaultPriority_def priorities_def)
  have fields: "\<And>env t p options s.
      (let s' = fst (snd (enqueue env t p options s));
           item = heap s' (next_ref s)
       in next_ref s \<in> set (queue s') \<and>
          item_id item = fst (enqueue env t p options s) \<and>
          item_type item = t \<and>
          payload item = p \<and>
          status item = pending \<and>
          localVersion item = 1 \<and>
          retryCount item = 0 \<and>
          priority item =
            (case options of
               None \<Rightarrow> getDefaultPriority t
             | Some os \<Rightarrow> (case opt_priority os of None \<Rightarrow> getDefaultPriority t | Some v \<Rightarrow> v)) \<and>
          conflictResolution item =
            (case options of
               None \<Rightarrow> defaultConflictResolution
             | Some os \<Rightarrow>
                 (case opt_conflictResolution os of
                    None \<Rightarrow> defaultConflictResolution
                  | Some v \<Rightarrow> v)))"
    unfolding Let_def heap_enqueue queue_enqueue
    by (simp add: new_item_def option_or_def enqueue_def Let_def)
  show ?thesis using tbl fields by (simp add: defaultConflictResolution_def)
qed

lemma length_insert_by: "length (insert_by c x xs) = Suc (length xs)"
  by (induction xs) auto

lemma length_sort_by: "length (sort_by c xs) = length xs"
  unfolding sort_by_def by (induction xs) (simp_all add: length_insert_by)

lemma length_queue_enqueue:
  "length (queue (fst (snd (enqueue env t p options s)))) = Suc (length (queue s))"
  by (simp add: enqueue_def Let_def notifyListeners_def persistQueue_def sortQueue_def push_def
      length_sort_by)

text \<open>
  A type outside the table that is not the name of an inherited member gets the
  fallback priority.
\<close>

lemma getDefaultPriority_unknown:
  "t \<notin> set OfflineActionType \<Longrightarrow> t \<notin> set Object_prototype_members \<Longrightarrow>
   getDefaultPriority t = 50"
  by (auto simp: getDefaultPriority_def OfflineActionType_def priorities_def)

subsection \<open>Action types outside the enumeration\<close>

text \<open>
  Claim C4, as amended.  \<open>enqueue\<close> does not check the action type, and nothing in it
  raises an invalid-type error: called with a type outside the enumeration (in a call
  whose subscribers return normally and whose \<^verbatim>\<open>NetInfo.fetch\<close> resolves) it returns
  the generated id, and the queue gains exactly the new object, pending and carrying
  that type.
\<close>

theorem enqueue_accepts_any_type:
  assumes "t \<notin> set OfflineActionType"
  shows "fst (enqueue env t p options s) = env_uuid env \<and>
         length (queue (fst (snd (enqueue env t p options s)))) = Suc (length (queue s)) \<and>
         set (queue (fst (snd (enqueue env t p options s)))) = insert (next_ref s) (set (queue s)) \<and>
         item_type (heap (fst (snd (enqueue env t p options s))) (next_ref s)) = t \<and>
         status (heap (fst (snd (enqueue env t p options s))) (next_ref s)) = pending"
  using assms
  by (simp add: heap_enqueue queue_enqueue length_queue_enqueue new_item_def)
    (simp add: enqueue_def Let_def)

text \<open>
  Claim C4 as stated fails: enqueuing the type \<open>bogus_action\<close> on a new manager returns
  the id and leaves one pending item of that type, priority 50, in the queue and in the
  durable store.
\<close>

theorem enqueue_unknown_type_counterexample:
  "''bogus_action'' \<notin> set OfflineActionType \<and>
   fst (enqueue ex_env ''bogus_action'' Map.empty None (new_manager None)) = ''u-1'' \<and>
   map item_type (snapshot (fst (snd (enqueue ex_env ''bogus_action'' Map.empty None (new_manager None)))))
     = [''bogus_action''] \<and>
   map priority (snapshot (fst (snd (enqueue ex_env ''bogus_action'' Map.empty None (new_manager None)))))
     = [50] \<and>
   map status (snapshot (fst (snd (enqueue ex_env ''bogus_action'' Map.empty None (new_manager None)))))
     = [pending] \<and>
   map_option (map item_type)
     (stored (fst (snd (enqueue ex_env ''bogus_action'' Map.empty None (new_manager None)))))
     = Some [''bogus_action'']"
  by (simp add: enqueue_def Let_def notifyListeners_def persistQueue_def sortQueue_def push_def
      new_manager_def new_item_def option_or_def snapshot_def sort_by_def ex_env_def
      getDefaultPriority_def OfflineActionType_def priorities_def)

theorem enqueue_accepts_any_type_witness:
  "''bogus_action'' \<notin> set OfflineActionType \<and>
   fst (enqueue ex_env ''bogus_action'' Map.empty None (new_manager None)) = ''u-1'' \<and>
   queue (fst (snd (enqueue ex_env ''bogus_action'' Map.empty None (new_manager None)))) = [0] \<and>
   item_type (heap (fst (snd (enqueue ex_env ''bogus_action'' Map.empty None (new_manager None)))) 0)
     = ''bogus_action'' \<and>
   status (heap (fst (snd (enqueue ex_env ''bogus_action'' Map.empty None (new_manager None)))) 0)
     = pending"
proof -
  have h: "''bogus_action'' \<notin> set OfflineActionType"
    by (simp add: OfflineActionType_def priorities_def)
  have n: "next_ref (new_manager None) = 0" "queue (new_manager None) = []"
    by (simp_all add: new_manager_def)
  from enqueue_accepts_any_type [OF h, of ex_env Map.empty None "new_manager None"]
  have a: "fst (enqueue ex_env ''bogus_action'' Map.empty None (new_manager None)) = env_uuid ex_env"
    and l: "length (queue (fst (snd (enqueue ex_env ''bogus_action'' Map.empty None
              (new_manager None))))) = Suc 0"
    and m: "set (queue (fst (snd (enqueue ex_env ''bogus_action'' Map.empty None
              (new_manager None))))) = {0}"
    and t: "item_type (heap (fst (snd (enqueue ex_env ''bogus_action'' Map.empty None
              (new_manager None)))) 0) = ''bogus_action''"
    and p: "status (heap (fst (snd (enqueue ex_env ''bogus_action'' Map.empty None
              (new_manager None)))) 0) = pending"
    by (simp_all add: n)
  from l m have "queue (fst (snd (enqueue ex_env ''bogus_action'' Map.empty None
              (new_manager None)))) = [0]"
    by (cases "queue (fst (snd (enqueue ex_env ''bogus_action'' Map.empty None (new_manager None))))")
      auto
  with h a t p show ?thesis by (simp add: ex_env_def)
qed

subsection \<open>Cleaning up old items\<close>

lemma heap_restarted:
  "heap (restarted items) r = (if r < length items then items ! r else new_item [] [] Map.empty None 0)"
  by (simp add: restarted_def initialize_def new_manager_def)

lemma queue_restarted: "queue (restarted items) = [0 ..< length items]"
  by (simp add: restarted_def initialize_def new_manager_def)

text \<open>
  Claim C10, as amended.  \<open>clearOldItems\<close> changes no object and keeps the queue in
  order, dropping exactly the entries that are completed and whose timestamp is at or
  before the cutoff (the current time minus the maximal age, one day by default), so a
  completed entry exactly at the cutoff goes too; whatever the age, every entry whose
  status is pending, syncing or failed stays.
\<close>

theorem clearOldItems_frame:
  "heap (clearOldItems now write_ok maxAgeMs s) = heap s \<and>
   queue (clearOldItems now write_ok maxAgeMs s) =
     filter (\<lambda>q. \<not> (status (heap s q) = completed \<and>
                      timestamp (heap s q) \<le> now - (case maxAgeMs of None \<Rightarrow> 86400000 | Some m \<Rightarrow> m)))
       (queue s) \<and>
   filter (\<lambda>q. status (heap s q) \<in> {pending, syncing, failed}) (queue (clearOldItems now write_ok maxAgeMs s)) =
     filter (\<lambda>q. status (heap s q) \<in> {pending, syncing, failed}) (queue s)"
proof -
  have eq: "(\<lambda>q. status (heap s q) \<noteq> completed \<or>
                 timestamp (heap s q) > now - (case maxAgeMs of None \<Rightarrow> 24 * 60 * 60 * 1000 | Some m \<Rightarrow> m))
          = (\<lambda>q. \<not> (status (heap s q) = completed \<and>
                 timestamp (heap s q) \<le> now - (case maxAgeMs of None \<Rightarrow> 86400000 | Some m \<Rightarrow> m)))"
    by (auto simp: fun_eq_iff split: option.splits)
  have q: "queue (clearOldItems now write_ok maxAgeMs s) =
     filter (\<lambda>q. \<not> (status (heap s q) = completed \<and>
                      timestamp (heap s q) \<le> now - (case maxAgeMs of None \<Rightarrow> 86400000 | Some m \<Rightarrow> m)))
       (queue s)"
    unfolding eq [symmetric] by (simp add: clearOldItems_def Let_def persistQueue_def)
  have h: "heap (clearOldItems now write_ok maxAgeMs s) = heap s"
    by (simp add: clearOldItems_def Let_def persistQueue_def)
  have keep: "filter (\<lambda>q. status (heap s q) \<in> {pending, syncing, failed})
                 (queue (clearOldItems now write_ok maxAgeMs s)) =
              filter (\<lambda>q. status (heap s q) \<in> {pending, syncing, failed}) (queue s)"
    unfolding q filter_filter by (rule filter_cong) auto
  show ?thesis using h q keep by blast
qed

theorem clearOldItems_frame_witness:
  "map (item_id \<circ> heap (restarted [ex_item ''a'' completed 10, ex_item ''b'' failed 10,
                                   ex_item ''c'' completed 500, ex_item ''d'' pending 0]))
     (queue (clearOldItems 1000 True (Some 600)
        (restarted [ex_item ''a'' completed 10, ex_item ''b'' failed 10,
                    ex_item ''c'' completed 500, ex_item ''d'' pending 0])))
   = [''b'', ''c'', ''d'']"
  using clearOldItems_frame [of 1000 True "Some 600"
      "restarted [ex_item ''a'' completed 10, ex_item ''b'' failed 10,
                  ex_item ''c'' completed 500, ex_item ''d'' pending 0]"]
  by (simp add: heap_restarted queue_restarted ex_item_def new_item_def upt_rec)

text \<open>
  Claim C10 as stated fails at the boundary.  The cutoff is 400; the completed item
  \<open>y\<close> has the timestamp 400, so it is not older than the cutoff, and it is removed
  together with \<open>x\<close>; only \<open>z\<close> stays.
\<close>

theorem item_at_cutoff_removed_counterexample:
  "map (\<lambda>q. (item_id q, status q, timestamp q)) (snapshot ex_boundary) =
     [(''x'', completed, 399), (''y'', completed, 400), (''z'', completed, 401)] \<and>
   (1000 - 600 :: int) = 400 \<and>
   \<not> (400 :: int) < 1000 - 600 \<and>
   map item_id (snapshot (clearOldItems 1000 True (Some 600) ex_boundary)) = [''z'']"
  by code_simp

subsection \<open>Manual retry\<close>

lemma find_index_None: "find_index P xs = None \<longleftrightarrow> (\<forall>x\<in>set xs. \<not> P x)"
  by (induction xs) auto

lemma find_index_Some:
  "find_index P xs = Some k \<longleftrightarrow> k < length xs \<and> P (xs ! k) \<and> (\<forall>j<k. \<not> P (xs ! j))"
proof (induction xs arbitrary: k)
  case Nil
  then show ?case by simp
next
  case (Cons x xs)
  show ?case
  proof (cases "P x")
    case True
    then show ?thesis by (cases k) auto
  next
    case False
    show ?thesis
    proof (cases k)
      case 0
      with False show ?thesis by auto
    next
      case (Suc n)
      have "(\<forall>j<Suc n. \<not> P ((x # xs) ! j)) \<longleftrightarrow> (\<forall>j<n. \<not> P (xs ! j))"
        using False by (auto simp: less_Suc_eq_0_disj)
      with False Suc Cons.IH [of n] show ?thesis by auto
    qed
  qed
qed

lemma findIndex_None: "findIndex i s = None \<longleftrightarrow> (\<forall>q\<in>set (queue s). item_id (heap s q) \<noteq> i)"
  by (simp add: findIndex_def find_index_None)

lemma findIndex_Some:
  "findIndex i s = Some k \<longleftrightarrow>
     k < length (queue s) \<and> item_id (heap s (queue s ! k)) = i \<and>
     (\<forall>j<k. item_id (heap s (queue s ! j)) \<noteq> i)"
  by (simp add: findIndex_def find_index_Some)

lemma retryItem_absent:
  "i \<notin> item_id ` heap s ` set (queue s) \<Longrightarrow> retryItem write_ok i s = (s, False)"
proof -
  assume "i \<notin> item_id ` heap s ` set (queue s)"
  then have "findIndex i s = None" by (auto simp: findIndex_None)
  then show ?thesis by (simp add: retryItem_def)
qed

lemma retryItem_present:
  assumes "i \<in> item_id ` heap s ` set (queue s)"
  shows "\<exists>k<length (queue s).
           item_id (heap s (queue s ! k)) = i \<and>
           (\<forall>j<k. item_id (heap s (queue s ! j)) \<noteq> i) \<and>
           heap (fst (retryItem write_ok i s)) =
             (heap s)(queue s ! k := (heap s (queue s ! k))\<lparr>status := pending, retryCount := 0\<rparr>) \<and>
           queue (fst (retryItem write_ok i s)) = queue s \<and>
           stored (fst (retryItem write_ok i s)) =
             (if write_ok then Some (snapshot (fst (retryItem write_ok i s))) else stored s)"
proof -
  from assms have "findIndex i s \<noteq> None" by (auto simp: findIndex_None)
  then obtain k where k: "findIndex i s = Some k" by auto
  then have props: "k < length (queue s)" "item_id (heap s (queue s ! k)) = i"
    "\<forall>j<k. item_id (heap s (queue s ! j)) \<noteq> i"
    by (simp_all add: findIndex_Some)
  have "heap (fst (retryItem write_ok i s)) =
          (heap s)(queue s ! k := (heap s (queue s ! k))\<lparr>status := pending, retryCount := 0\<rparr>)"
    "queue (fst (retryItem write_ok i s)) = queue s"
    "stored (fst (retryItem write_ok i s)) =
             (if write_ok then Some (snapshot (fst (retryItem write_ok i s))) else stored s)"
    using k by (simp_all add: retryItem_def Let_def upd_obj_def persistQueue_def snapshot_def)
  with props show ?thesis by blast
qed

lemma fold_retry_queue: "queue (fold retry_if_failed rs s) = queue s"
  by (induction rs arbitrary: s) (simp_all add: retry_if_failed_def upd_obj_def)

lemma fold_retry_heap:
  "heap (fold retry_if_failed rs s) =
     (\<lambda>r. if r \<in> set rs \<and> status (heap s r) = failed
          then (heap s r)\<lparr>status := pending, retryCount := 0\<rparr> else heap s r)"
proof (induction rs arbitrary: s)
  case Nil
  then show ?case by simp
next
  case (Cons a rs)
  show ?case
    by (simp add: Cons.IH) (auto simp: retry_if_failed_def upd_obj_def fun_eq_iff)
qed

text \<open>
  Claim C9.  For an id present in the queue, \<open>retryItem\<close> sets the status of the (first)
  entry with that id to pending and its retry count to 0, changes no other object and
  not the queue; for an absent id it changes nothing.  \<open>retryAllFailed\<close> does the same
  reset for every queued object whose status is failed and leaves every other object
  and the queue as they are.
\<close>

theorem manual_retry_resets_budget:
  "(i \<in> item_id ` heap s ` set (queue s) \<longrightarrow>
      (\<exists>k<length (queue s).
           item_id (heap s (queue s ! k)) = i \<and>
           (\<forall>j<k. item_id (heap s (queue s ! j)) \<noteq> i) \<and>
           heap (fst (retryItem write_ok i s)) =
             (heap s)(queue s ! k := (heap s (queue s ! k))\<lparr>status := pending, retryCount := 0\<rparr>) \<and>
           queue (fst (retryItem write_ok i s)) = queue s)) \<and>
   (i \<notin> item_id ` heap s ` set (queue s) \<longrightarrow> retryItem write_ok i s = (s, False)) \<and>
   heap (fst (retryAllFailed write_ok s)) =
     (\<lambda>r. if r \<in> set (queue s) \<and> status (heap s r) = failed
          then (heap s r)\<lparr>status := pending, retryCount := 0\<rparr> else heap s r) \<and>
   queue (fst (retryAllFailed write_ok s)) = queue s"
proof -
  have a: "i \<in> item_id ` heap s ` set (queue s) \<longrightarrow>
      (\<exists>k<length (queue s).
           item_id (heap s (queue s ! k)) = i \<and>
           (\<forall>j<k. item_id (heap s (queue s ! j)) \<noteq> i) \<and>
           heap (fst (retryItem write_ok i s)) =
             (heap s)(queue s ! k := (heap s (queue s ! k))\<lparr>status := pending, retryCount := 0\<rparr>) \<and>
           queue (fst (retryItem write_ok i s)) = queue s)"
    using retryItem_present [of i s write_ok] by blast
  have b: "i \<notin> item_id ` heap s ` set (queue s) \<longrightarrow> retryItem write_ok i s = (s, False)"
    using retryItem_absent by blast
  have c: "heap (fst (retryAllFailed write_ok s)) =
     (\<lambda>r. if r \<in> set (queue s) \<and> status (heap s r) = failed
          then (heap s r)\<lparr>status := pending, retryCount := 0\<rparr> else heap s r)"
    by (simp add: retryAllFailed_def persistQueue_def fold_retry_heap)
  have d: "queue (fst (retryAllFailed write_ok s)) = queue s"
    by (simp add: retryAllFailed_def persistQueue_def fold_retry_queue)
  from a b c d show ?thesis by blast
qed

lemma queue_ex_queue: "queue ex_queue = [0, 1, 2]"
  by (simp add: ex_queue_def queue_restarted upt_rec)

lemma heap_ex_queue:
  "heap ex_queue 0 = (ex_item ''a'' failed 10)\<lparr>retryCount := 5\<rparr>"
  "heap ex_queue (Suc 0) = ex_item ''b'' pending 20"
  "heap ex_queue 2 = (ex_item ''c'' failed 30)\<lparr>retryCount := 2\<rparr>"
  by (simp_all add: ex_queue_def heap_restarted)

theorem manual_retry_resets_budget_witness:
  "''a'' \<in> item_id ` heap ex_queue ` set (queue ex_queue) \<and>
   ''zz'' \<notin> item_id ` heap ex_queue ` set (queue ex_queue) \<and>
   map (\<lambda>q. (status q, retryCount q)) (snapshot (fst (retryItem True ''a'' ex_queue)))
     = [(pending, 0), (pending, 0), (failed, 2)] \<and>
   retryItem True ''zz'' ex_queue = (ex_queue, False) \<and>
   map (\<lambda>q. (status q, retryCount q)) (snapshot (fst (retryAllFailed True ex_queue)))
     = [(pending, 0), (pending, 0), (pending, 0)]"
proof -
  have a: "''a'' \<in> item_id ` heap ex_queue ` set (queue ex_queue)"
    by (simp add: queue_ex_queue heap_ex_queue ex_item_def new_item_def)
  have z: "''zz'' \<notin> item_id ` heap ex_queue ` set (queue ex_queue)"
    by (simp add: queue_ex_queue heap_ex_queue ex_item_def new_item_def)
  from manual_retry_resets_budget [of "''a''" ex_queue True] a
  obtain k where first: "\<forall>j<k. item_id (heap ex_queue (queue ex_queue ! j)) \<noteq> ''a''"
    and hk: "heap (fst (retryItem True ''a'' ex_queue)) =
              (heap ex_queue)(queue ex_queue ! k :=
                 (heap ex_queue (queue ex_queue ! k))\<lparr>status := pending, retryCount := 0\<rparr>)"
    and q1: "queue (fst (retryItem True ''a'' ex_queue)) = queue ex_queue"
    by blast
  have k0: "k = 0"
  proof (rule ccontr)
    assume "k \<noteq> 0"
    then have "0 < k" by simp
    with first have "item_id (heap ex_queue (queue ex_queue ! 0)) \<noteq> ''a''" by blast
    then show False by (simp add: queue_ex_queue heap_ex_queue ex_item_def new_item_def)
  qed
  have r1: "heap (fst (retryItem True ''a'' ex_queue)) =
              (heap ex_queue)(0 := (heap ex_queue 0)\<lparr>status := pending, retryCount := 0\<rparr>)"
    using hk unfolding k0 by (simp add: queue_ex_queue)
  from manual_retry_resets_budget [of "''zz''" ex_queue True] z
  have r2: "retryItem True ''zz'' ex_queue = (ex_queue, False)"
    and r3: "heap (fst (retryAllFailed True ex_queue)) =
     (\<lambda>r. if r \<in> set (queue ex_queue) \<and> status (heap ex_queue r) = failed
          then (heap ex_queue r)\<lparr>status := pending, retryCount := 0\<rparr> else heap ex_queue r)"
    and q3: "queue (fst (retryAllFailed True ex_queue)) = queue ex_queue"
    by blast+
  show ?thesis
    using a z r2
    by (simp add: snapshot_def r1 q1 r3 q3 queue_ex_queue heap_ex_queue ex_item_def new_item_def)
qed

subsection \<open>Conflict resolution\<close>

lemma findIndex_own:
  assumes "item \<in> set (queue s)"
    and "distinct (map (\<lambda>q. item_id (heap s q)) (queue s))"
  shows "\<exists>k. findIndex (item_id (heap s item)) s = Some k \<and> queue s ! k = item"
proof -
  from assms(1) obtain k where k: "k < length (queue s)" "queue s ! k = item"
    by (auto simp: in_set_conv_nth)
  have "\<forall>j<k. item_id (heap s (queue s ! j)) \<noteq> item_id (heap s item)"
  proof (intro allI impI)
    fix j assume "j < k"
    with k have jk: "j < length (map (\<lambda>q. item_id (heap s q)) (queue s))"
      "k < length (map (\<lambda>q. item_id (heap s q)) (queue s))" "j \<noteq> k"
      by simp_all
    from nth_eq_iff_index_eq [OF assms(2) jk(1) jk(2)] jk(3)
    have "map (\<lambda>q. item_id (heap s q)) (queue s) ! j
        \<noteq> map (\<lambda>q. item_id (heap s q)) (queue s) ! k"
      by blast
    with k \<open>j < k\<close> show "item_id (heap s (queue s ! j)) \<noteq> item_id (heap s item)"
      by simp
  qed
  with k have "findIndex (item_id (heap s item)) s = Some k"
    by (simp add: findIndex_Some)
  with k show ?thesis by blast
qed

lemma filter_id_own:
  assumes "item \<in> set (queue s)"
    and "distinct (map (\<lambda>q. item_id (heap s q)) (queue s))"
  shows "filter (\<lambda>q. item_id (heap s q) \<noteq> item_id (heap s item)) (queue s) =
         filter (\<lambda>q. q \<noteq> item) (queue s)"
proof (rule filter_cong [OF refl])
  fix q assume "q \<in> set (queue s)"
  moreover from assms(2) have "inj_on (\<lambda>q. item_id (heap s q)) (set (queue s))"
    by (simp add: distinct_map)
  ultimately show "(item_id (heap s q) \<noteq> item_id (heap s item)) = (q \<noteq> item)"
    using assms(1) by (auto dest: inj_onD)
qed

lemma mergeChanges_lookup:
  "mergeChanges now local server k =
     (if k = ''_mergedAt'' then Some (JNum now)
      else if k = ''_merged'' then Some (JBool True)
      else (case local k of Some v \<Rightarrow> Some v | None \<Rightarrow> server k))"
  by (simp add: mergeChanges_def map_add_def)

text \<open>
  Claim C2.  For an item of the queue, whose entries have pairwise different ids (an
  invariant of the manager, see \<open>ids_stay_distinct\<close>), and an optional server payload, \<open>handleConflict\<close> makes exactly this transition: with client
  wins the item's local version grows by one and its status becomes pending, payload
  unchanged; with server wins the item leaves the queue, no object is changed (so no
  local version), and the server payload, when there is one, is emitted; with merge the
  item's payload becomes the server's fields overridden by the local ones and tagged
  \<open>_merged\<close> (with the time in \<open>_mergedAt\<close>), its local version grows by one and its
  status becomes pending; with manual its status becomes failed, its server version is
  the server payload's \<open>_version\<close> and an error message is set, payload unchanged.
  Nothing else changes.
\<close>

theorem handleConflict_transitions:
  assumes "item \<in> set (queue s)"
    and "distinct (map (\<lambda>q. item_id (heap s q)) (queue s))"
  shows "handleConflict now item serverData s =
     (case conflictResolution (heap s item) of
        client_wins \<Rightarrow>
          s\<lparr>heap := (heap s)(item := (heap s item)
                \<lparr>localVersion := localVersion (heap s item) + 1, status := pending\<rparr>)\<rparr>
      | server_wins \<Rightarrow>
          s\<lparr>queue := filter (\<lambda>q. q \<noteq> item) (queue s),
            trace := trace s @
              (case serverData of None \<Rightarrow> [] | Some d \<Rightarrow> [EvServerUpdate (item_type (heap s item)) d])\<rparr>
      | merge \<Rightarrow>
          s\<lparr>heap := (heap s)(item := (heap s item)
                \<lparr>payload := (\<lambda>k. if k = ''_mergedAt'' then Some (JNum now)
                                  else if k = ''_merged'' then Some (JBool True)
                                  else (case payload (heap s item) k of
                                          Some v \<Rightarrow> Some v
                                        | None \<Rightarrow> (case serverData of None \<Rightarrow> None | Some d \<Rightarrow> d k))),
                  localVersion := localVersion (heap s item) + 1,
                  status := pending\<rparr>)\<rparr>
      | manual \<Rightarrow>
          s\<lparr>heap := (heap s)(item := (heap s item)
                \<lparr>status := failed,
                  errorMessage := Some ''Conflict requires manual resolution'',
                  serverVersion := (case serverData of None \<Rightarrow> None | Some d \<Rightarrow> d ''_version'')\<rparr>)\<rparr>)"
proof -
  from findIndex_own [OF assms] obtain k
    where k: "findIndex (item_id (heap s item)) s = Some k" "queue s ! k = item"
    by blast
  show ?thesis
  proof (cases "conflictResolution (heap s item)")
    case client_wins
    with k show ?thesis
      by (simp add: handleConflict_def Let_def upd_obj_def)
  next
    case server_wins
    with k filter_id_own [OF assms] show ?thesis
      by (cases serverData)
        (simp_all add: handleConflict_def Let_def filter_out_id_def emitServerUpdate_def)
  next
    case merge
    have m: "mergeChanges now (payload (heap s item))
               (case serverData of None \<Rightarrow> Map.empty | Some d \<Rightarrow> d) =
             (\<lambda>k. if k = ''_mergedAt'' then Some (JNum now)
                  else if k = ''_merged'' then Some (JBool True)
                  else (case payload (heap s item) k of
                          Some v \<Rightarrow> Some v
                        | None \<Rightarrow> (case serverData of None \<Rightarrow> None | Some d \<Rightarrow> d k)))"
      by (rule ext) (simp add: mergeChanges_lookup split: option.splits)
    from merge k show ?thesis
      by (simp add: handleConflict_def Let_def upd_obj_def m)
  next
    case manual
    with k show ?thesis
      by (simp add: handleConflict_def Let_def upd_obj_def)
  qed
qed

lemma queue_ex_conflicts: "queue ex_conflicts = [0, 1, 2, 3]"
  by (simp add: ex_conflicts_def queue_restarted upt_rec)

lemma heap_ex_conflicts:
  "heap ex_conflicts 0 = ex_conflict_item ''cw'' client_wins"
  "heap ex_conflicts (Suc 0) = ex_conflict_item ''sw'' server_wins"
  "heap ex_conflicts 2 = ex_conflict_item ''mg'' merge"
  "heap ex_conflicts 3 = ex_conflict_item ''mn'' manual"
  by (simp_all add: ex_conflicts_def heap_restarted)

theorem handleConflict_transitions_witness:
  "set (queue ex_conflicts) = {0, 1, 2, 3} \<and>
   distinct (map (\<lambda>q. item_id (heap ex_conflicts q)) (queue ex_conflicts)) \<and>
   localVersion (heap (handleConflict 50 0 (Some ex_server) ex_conflicts) 0) = 2 \<and>
   status (heap (handleConflict 50 0 (Some ex_server) ex_conflicts) 0) = pending \<and>
   payload (heap (handleConflict 50 0 (Some ex_server) ex_conflicts) 0) ''title'' = Some (JStr ''local'') \<and>
   queue (handleConflict 50 1 (Some ex_server) ex_conflicts) = [0, 2, 3] \<and>
   heap (handleConflict 50 1 (Some ex_server) ex_conflicts) = heap ex_conflicts \<and>
   map (payload (heap (handleConflict 50 2 (Some ex_server) ex_conflicts) 2))
       [''title'', ''owner'', ''_merged'', ''_mergedAt'']
     = [Some (JStr ''local''), Some (JStr ''ann''), Some (JBool True), Some (JNum 50)] \<and>
   localVersion (heap (handleConflict 50 2 (Some ex_server) ex_conflicts) 2) = 2 \<and>
   status (heap (handleConflict 50 2 (Some ex_server) ex_conflicts) 2) = pending \<and>
   status (heap (handleConflict 50 3 (Some ex_server) ex_conflicts) 3) = failed \<and>
   serverVersion (heap (handleConflict 50 3 (Some ex_server) ex_conflicts) 3) = Some (JNum 7) \<and>
   payload (heap (handleConflict 50 3 (Some ex_server) ex_conflicts) 3) ''title'' = Some (JStr ''local'')"
proof -
  have d: "distinct (map (\<lambda>q. item_id (heap ex_conflicts q)) (queue ex_conflicts))"
    by (simp add: queue_ex_conflicts heap_ex_conflicts ex_conflict_item_def new_item_def)
  have m: "(0::nat) \<in> set (queue ex_conflicts)" "(1::nat) \<in> set (queue ex_conflicts)"
    "(2::nat) \<in> set (queue ex_conflicts)" "(3::nat) \<in> set (queue ex_conflicts)"
    by (simp_all add: queue_ex_conflicts)
  note t = handleConflict_transitions [OF m(1) d, of 50 "Some ex_server"]
    handleConflict_transitions [OF m(2) d, of 50 "Some ex_server"]
    handleConflict_transitions [OF m(3) d, of 50 "Some ex_server"]
    handleConflict_transitions [OF m(4) d, of 50 "Some ex_server"]
  show ?thesis
    unfolding t
    using d
    by (simp add: queue_ex_conflicts heap_ex_conflicts ex_conflict_item_def new_item_def
        option_or_def ex_server_def)
qed

subsection \<open>Classification of the executor's outcome\<close>

lemma classify_resolved_without_data:
  "data response = None \<Longrightarrow> classify (executeAction_result (Resolved response)) = Success"
  by (simp add: executeAction_result_def classify_def result_success_def)

text \<open>
  How \<open>executeAction\<close> and \<open>processItem\<close> classify every way \<^verbatim>\<open>apiClient.post\<close> can
  settle.  A resolved response is a conflict when its data carry a truthy \<open>conflict\<close>
  field and a success otherwise, whatever its \<open>success\<close> field says.
\<close>

lemma executeAction_classification:
  "classify (executeAction_result out) =
     (case out of
        Resolved response \<Rightarrow>
          (case data response of
             None \<Rightarrow> Success
           | Some obj \<Rightarrow> if data_conflict obj then Conflict (serverData_of obj) else Success)
      | Rejected (ErrorObject m) \<Rightarrow>
          if includes_str m ''409'' then Conflict None else RetryableFailure m
      | Rejected OtherValue \<Rightarrow> RetryableFailure ''Network error'')"
  by (simp add: executeAction_result_def classify_def result_success_def
      split: api_outcome.split thrown.split option.split)

text \<open>
  Claim C6 at a failing input.  A task update for the unknown task \<open>task-99\<close> is sent
  to \<^verbatim>\<open>/tasks/update\<close>; the mock server answers with \<open>success = False\<close> and the error
  \<open>NOT_FOUND\<close>; \<open>executeAction\<close> nevertheless reports success, and \<open>processItem\<close>
  removes the item from the queue as completed.
\<close>

theorem server_error_classified_as_success:
  "fst (executeAction_request ex_task_update) = Some ''/tasks/update'' \<and>
   success ex_not_found = False \<and>
   error ex_not_found = Some (''NOT_FOUND'', ''Task not found'') \<and>
   r_success (executeAction_result (Resolved ex_not_found)) = True \<and>
   (case classify (executeAction_result (Resolved ex_not_found)) of
      Success \<Rightarrow> True | Conflict d \<Rightarrow> False | RetryableFailure m \<Rightarrow> False) \<and>
   fst (processItem \<lparr>at_now = 2000, at_outcome = Resolved ex_not_found, at_later = 2500\<rparr> 0
          (restarted [ex_task_update])) = None \<and>
   queue (snd (processItem \<lparr>at_now = 2000, at_outcome = Resolved ex_not_found, at_later = 2500\<rparr> 0
          (restarted [ex_task_update]))) = []"
  by code_simp

subsection \<open>The retry budget\<close>

text \<open>
  Selection looks at the status only: the retry count of an object has no influence on
  the batch, and an item that has used up its retries is selectable.
\<close>

lemma select_batch_ignores_budget:
  "select_batch (upd_obj r (\<lambda>q. q\<lparr>retryCount := n\<rparr>) s) = select_batch s"
proof -
  have "filter (\<lambda>x. selectable (heap (upd_obj r (\<lambda>q. q\<lparr>retryCount := n\<rparr>) s) x)) (queue s) =
        filter (\<lambda>x. selectable (heap s x)) (queue s)"
    by (rule filter_cong) (auto simp: upd_obj_def selectable_def)
  then show ?thesis by (simp add: select_batch_def upd_obj_def)
qed

lemma exhausted_item_selectable:
  "status item = failed \<Longrightarrow> retryCount item \<ge> maxRetries item \<Longrightarrow> selectable item"
  by (simp add: selectable_def)

text \<open>
  Claim C1 at a failing input.  An item is enqueued with \<open>maxRetries = 2\<close> and every
  request fails.  After two drains its retry count is 2 and its status failed; the third
  drain selects it all the same, sends a third request, and leaves the retry count at 3,
  above the maximum.
\<close>

theorem exhausted_item_is_attempted_again:
  "budget_view ex_budget_two = [(pending, 0, 2)] \<and>
   budget_view (drains 1 ex_budget_two) = [(pending, 1, 2)] \<and>
   budget_view (drains 2 ex_budget_two) = [(failed, 2, 2)] \<and>
   posts (trace (drains 2 ex_budget_two)) = [0, 0] \<and>
   select_batch (drains 2 ex_budget_two) = [0] \<and>
   posts (trace (drains 3 ex_budget_two)) = [0, 0, 0] \<and>
   budget_view (drains 3 ex_budget_two) = [(failed, 3, 2)]"
  by code_simp

subsection \<open>The step function and the uninterrupted drain agree\<close>

lemma run_one_append:
  "run_one now (xs @ ys) ps =
     (case run_one now xs ps of None \<Rightarrow> None | Some ps' \<Rightarrow> run_one now ys ps')"
  by (induction xs arbitrary: ps) (auto split: option.split)

lemma run_one_settlements:
  assumes "\<And>k. at_now (w k) = now \<and> at_later (w k) = now"
  shows "run_one now (settlements w now k batch s) (advance now batch s) =
         Some (finally_begin (fst (processBatch w k batch s)) (snd (processBatch w k batch s)))"
proof (induction batch arbitrary: k s)
  case Nil
  show ?case by simp
next
  case (Cons item rest)
  show ?case
  proof (cases "processItem_begin now item s")
    case None
    then have "processItem (w k) item s = (None, s)"
      using assms by (simp add: processItem_def)
    with None Cons.IH [of "Suc k" s] show ?thesis by simp
  next
    case (Some b)
    obtain itemIndex s1 where b: "b = (itemIndex, s1)" by (cases b)
    obtain err s2 where f: "processItem_finish now item itemIndex
        (executeAction_result (at_outcome (w k))) s1 = (err, s2)"
      by (cases "processItem_finish now item itemIndex (executeAction_result (at_outcome (w k))) s1")
    have p: "processItem (w k) item s = (err, s2)"
      using Some b f assms by (simp add: processItem_def)
    show ?thesis
    proof (cases err)
      case None
      with Some b f p Cons.IH [of "Suc k" s2] show ?thesis by simp
    next
      case (Some e)
      with \<open>processItem_begin now item s = Some b\<close> b f p show ?thesis by simp
    qed
  qed
qed

text \<open>
  With a clock that stands still, an invocation that is resumed by the events of
  \<open>drain_schedule\<close>, one after the other with nothing in between, returns with the
  result and in the state that \<open>processQueue\<close> computes.
\<close>

lemma uninterrupted_run_is_processQueue:
  assumes "\<And>k. at_now (dr_attempt env k) = now \<and> at_later (dr_attempt env k) = now"
  shows "run_one now (drain_schedule env now s) (NotCalled, s) =
         Some (Returned (fst (processQueue env s)), snd (processQueue env s))"
proof (cases "isProcessing s \<or> queue s = []")
  case True
  then show ?thesis by (auto simp: drain_schedule_def processQueue_def)
next
  case guard: False
  show ?thesis
  proof (cases "dr_connected env")
    case False
    with guard show ?thesis by (simp add: drain_schedule_def processQueue_def)
  next
    case True
    let ?s1 = "set_flags True s"
    let ?b = "select_batch ?s1"
    obtain err s2 where pb: "processBatch (dr_attempt env) 0 ?b ?s1 = (err, s2)"
      by (cases "processBatch (dr_attempt env) 0 ?b ?s1")
    have loop: "run_one now (settlements (dr_attempt env) now 0 ?b ?s1) (advance now ?b ?s1) =
        Some (finally_begin err s2)"
      using run_one_settlements [of "dr_attempt env" now 0 ?b ?s1] assms pb by simp
    have "run_one now (drain_schedule env now s) (NotCalled, s) =
        run_one now (settlements (dr_attempt env) now 0 ?b ?s1 @ [SetItemSettled (dr_write_ok env)])
          (advance now ?b ?s1)"
      using guard True by (simp add: drain_schedule_def Let_def)
    also have "\<dots> = run_one now [SetItemSettled (dr_write_ok env)] (finally_begin err s2)"
      by (simp add: run_one_append loop)
    also have "\<dots> = Some (Returned err,
        notifyListeners (persistQueue (dr_write_ok env) (set_flags False s2)))"
      by (simp add: finally_begin_def Let_def persistQueue_def)
    finally show ?thesis
      using guard True pb by (simp add: processQueue_def Let_def)
  qed
qed

subsection \<open>Two overlapping drains\<close>

text \<open>
  A call that passes the guard is suspended without having set the flag, so the next
  call meets the same state.
\<close>

lemma guard_leaves_flag:
  "\<not> isProcessing s \<Longrightarrow> queue s \<noteq> [] \<Longrightarrow> step now Call NotCalled s = Some (AwaitNetInfo, s)"
  by simp

text \<open>
  Claim C3 at a failing input.  The queue holds two pending items and
  \<open>processQueue\<close> is called twice in a row.  The flag \<open>isProcessing\<close> is set only after
  the first \<^verbatim>\<open>await\<close>, so the second call passes the guard as well: after the two
  calls both invocations are suspended at \<^verbatim>\<open>NetInfo.fetch\<close> and the flag is still
  false.  Both then send requests: invocation \<open>A\<close> posts object 0, invocation \<open>B\<close>
  posts object 1, and \<open>A\<close> posts object 1 a second time.  \<open>B\<close> ends with a
  \<^verbatim>\<open>TypeError\<close>, its index having gone stale.
\<close>

theorem second_invocation_passes_guard:
  "map_option (\<lambda>r. (suspended_at_NetInfo (pcA r), suspended_at_NetInfo (pcB r),
                     isProcessing (mgr r), posts (trace (mgr r))))
     (run ex_calls ex_two_pending) = Some (True, True, False, []) \<and>
   posts_of_run (take 4 ex_schedule) ex_two_pending = Some [0, 1] \<and>
   posts_of_run ex_schedule ex_two_pending = Some [0, 1, 1] \<and>
   map_option (\<lambda>r. (has_returned (pcA r), rejected_with (pcA r),
                     has_returned (pcB r), rejected_with (pcB r), queue (mgr r)))
     (run ex_schedule ex_two_pending) = Some (True, None, True, Some TypeError, [])"
  by code_simp

subsection \<open>Persistence before notification\<close>

lemma io_only_refl: "io_only s s"
  by (simp add: io_only_def)

lemma io_only_trans: "io_only s s1 \<Longrightarrow> io_only s1 s2 \<Longrightarrow> io_only s s2"
  unfolding io_only_def
proof (elim conjE exE)
  fix pre1 pre2
  assume a: "list_all quiet pre1" "trace s1 = trace s @ pre1" "list_all quiet pre2"
    "trace s2 = trace s1 @ pre2"
    and b: "listeners s1 = listeners s" "stored s1 = stored s"
      "listeners s2 = listeners s1" "stored s2 = stored s1"
  from a have "list_all quiet (pre1 @ pre2) \<and> trace s2 = trace s @ (pre1 @ pre2)" by simp
  with b show "(\<exists>pre. list_all quiet pre \<and> trace s2 = trace s @ pre) \<and>
      listeners s2 = listeners s \<and> stored s2 = stored s"
    by (metis)
qed

lemma io_only_upd_obj: "io_only s (upd_obj r f s)"
  by (simp add: io_only_def upd_obj_def)

lemma io_only_upd_obj': "io_only s s1 \<Longrightarrow> io_only s (upd_obj r f s1)"
  by (rule io_only_trans [OF _ io_only_upd_obj])

lemma io_only_filter_out_id: "io_only s (filter_out_id i s)"
  by (simp add: io_only_def filter_out_id_def)

lemma io_only_emit: "io_only s (emitServerUpdate t d s)"
  by (simp add: io_only_def emitServerUpdate_def)

lemma io_only_set_flags: "io_only s (set_flags b s)"
  by (simp add: io_only_def set_flags_def)

lemma io_only_handleConflict: "io_only s (handleConflict now item serverData s)"
  unfolding handleConflict_def Let_def
  by (auto split: option.split ConflictResolution.split
      intro!: io_only_refl io_only_upd_obj' io_only_upd_obj io_only_filter_out_id
        io_only_trans [OF io_only_filter_out_id io_only_emit])

lemma io_only_processItem_begin:
  "processItem_begin now item s = Some (k, s1) \<Longrightarrow> io_only s s1"
  unfolding processItem_begin_def Let_def
  by (auto split: option.splits simp: io_only_def upd_obj_def)

lemma io_only_catch_block: "io_only s (snd (catch_block item k msg s))"
  unfolding catch_block_def Let_def
  by (auto split: option.split intro!: io_only_refl io_only_upd_obj' io_only_upd_obj)

lemma io_only_processItem_finish: "io_only s (snd (processItem_finish now item k result s))"
  unfolding processItem_finish_def Let_def
  by (auto split: outcome.split option.split
      intro!: io_only_refl io_only_handleConflict io_only_catch_block
        io_only_trans [OF io_only_upd_obj io_only_filter_out_id])

lemma io_only_processItem: "io_only s (snd (processItem e item s))"
  unfolding processItem_def
  by (auto split: option.split
      intro: io_only_refl io_only_trans [OF io_only_processItem_begin io_only_processItem_finish])

lemma io_only_processBatch: "io_only s (snd (processBatch w k batch s))"
proof (induction batch arbitrary: k s)
  case Nil
  show ?case by (simp add: io_only_refl)
next
  case (Cons item rest)
  obtain err s1 where p: "processItem (w k) item s = (err, s1)" by (cases "processItem (w k) item s")
  have s1: "io_only s s1" using io_only_processItem [of s "w k" item] p by simp
  show ?case
  proof (cases err)
    case None
    with p s1 Cons.IH [of s1 "Suc k"] show ?thesis by (auto intro: io_only_trans)
  next
    case (Some e)
    with p s1 show ?thesis by simp
  qed
qed

text \<open>
  Claim C7, as amended.  Each of \<open>enqueue\<close>, \<open>removeItem\<close> and a drain, run from start
  to end with no other operation on the queue in between and with subscribers that
  return normally, behaves as follows.
  \<open>enqueue\<close>, \<open>removeItem\<close> and a drain that passes its guards (no drain in progress,
  queue not empty, online) hand the queue to the durable store, wait for the outcome, and
  only then call the subscribers, with the snapshot that was handed to the store; a
  drain sends its requests before that and calls no subscriber in between.  A drain that
  is stopped by a guard changes nothing: no write, no call.  When the store accepts the
  write, the stored queue is the notified one; when it rejects the write, the stored
  queue stays as it was and the subscribers are called all the same.
\<close>

theorem notification_follows_write:
  "(let s' = fst (snd (enqueue env t p options s)) in
      trace s' = trace s @ [EvSetItem (snapshot s') (env_write_ok env)] @
                   map (\<lambda>l. EvListener l (snapshot s')) (listeners s) \<and>
      stored s' = (if env_write_ok env then Some (snapshot s') else stored s)) \<and>
   (let s' = removeItem write_ok i s in
      trace s' = trace s @ [EvSetItem (snapshot s') write_ok] @
                   map (\<lambda>l. EvListener l (snapshot s')) (listeners s) \<and>
      stored s' = (if write_ok then Some (snapshot s') else stored s)) \<and>
   (let s' = snd (processQueue denv s) in
      if isProcessing s \<or> queue s = [] \<or> \<not> dr_connected denv then s' = s
      else (\<exists>pre. list_all quiet pre \<and>
         trace s' = trace s @ pre @ [EvSetItem (snapshot s') (dr_write_ok denv)] @
                      map (\<lambda>l. EvListener l (snapshot s')) (listeners s) \<and>
         stored s' = (if dr_write_ok denv then Some (snapshot s') else stored s)))"
proof -
  have e: "let s' = fst (snd (enqueue env t p options s)) in
      trace s' = trace s @ [EvSetItem (snapshot s') (env_write_ok env)] @
                   map (\<lambda>l. EvListener l (snapshot s')) (listeners s) \<and>
      stored s' = (if env_write_ok env then Some (snapshot s') else stored s)"
    by (simp add: enqueue_def Let_def notifyListeners_def persistQueue_def sortQueue_def
        push_def snapshot_def)
  have r: "let s' = removeItem write_ok i s in
      trace s' = trace s @ [EvSetItem (snapshot s') write_ok] @
                   map (\<lambda>l. EvListener l (snapshot s')) (listeners s) \<and>
      stored s' = (if write_ok then Some (snapshot s') else stored s)"
    by (simp add: removeItem_def Let_def notifyListeners_def persistQueue_def filter_out_id_def
        snapshot_def)
  have d: "let s' = snd (processQueue denv s) in
      if isProcessing s \<or> queue s = [] \<or> \<not> dr_connected denv then s' = s
      else (\<exists>pre. list_all quiet pre \<and>
         trace s' = trace s @ pre @ [EvSetItem (snapshot s') (dr_write_ok denv)] @
                      map (\<lambda>l. EvListener l (snapshot s')) (listeners s) \<and>
         stored s' = (if dr_write_ok denv then Some (snapshot s') else stored s))"
  proof (cases "isProcessing s \<or> queue s = [] \<or> \<not> dr_connected denv")
    case True
    then have "snd (processQueue denv s) = s" by (auto simp: processQueue_def)
    with True show ?thesis by (simp add: Let_def)
  next
    case False
    obtain err s2 where b: "processBatch (dr_attempt denv) 0 (select_batch (set_flags True s))
        (set_flags True s) = (err, s2)"
      by (cases "processBatch (dr_attempt denv) 0 (select_batch (set_flags True s)) (set_flags True s)")
    have "io_only (set_flags True s) s2"
      using io_only_processBatch [of "set_flags True s" "dr_attempt denv" 0
          "select_batch (set_flags True s)"] b by simp
    with io_only_set_flags [of s True] have "io_only s s2" by (rule io_only_trans)
    then obtain pre where pre: "list_all quiet pre" "trace s2 = trace s @ pre"
      and keep: "listeners s2 = listeners s" "stored s2 = stored s"
      by (auto simp: io_only_def)
    have s': "snd (processQueue denv s) =
        notifyListeners (persistQueue (dr_write_ok denv) (set_flags False s2))"
      using False b by (simp add: processQueue_def Let_def)
    have "trace (snd (processQueue denv s)) =
            trace s @ pre @ [EvSetItem (snapshot (snd (processQueue denv s))) (dr_write_ok denv)] @
              map (\<lambda>l. EvListener l (snapshot (snd (processQueue denv s)))) (listeners s)"
      "stored (snd (processQueue denv s)) =
         (if dr_write_ok denv then Some (snapshot (snd (processQueue denv s))) else stored s)"
      unfolding s' using pre keep
      by (simp_all add: notifyListeners_def persistQueue_def set_flags_def snapshot_def)
    with pre(1) have "\<exists>pre. list_all quiet pre \<and>
         trace (snd (processQueue denv s)) =
           trace s @ pre @ [EvSetItem (snapshot (snd (processQueue denv s))) (dr_write_ok denv)] @
             map (\<lambda>l. EvListener l (snapshot (snd (processQueue denv s)))) (listeners s) \<and>
         stored (snd (processQueue denv s)) =
           (if dr_write_ok denv then Some (snapshot (snd (processQueue denv s))) else stored s)"
      by blast
    with False show ?thesis by (simp add: Let_def)
  qed
  from e r d show ?thesis by blast
qed

text \<open>
  Claim C7 as stated fails when the store rejects the write: \<open>removeItem\<close> on a queue of
  two stored items tells subscriber 7 that the queue is \<open>loc-2\<close> alone, while the
  durable store still holds both items.
\<close>

theorem notified_but_not_persisted_counterexample:
  "map view (trace (removeItem False ''loc-1'' ex_subscribed)) =
     [(Write False, [''loc-2'']), (Notify 7, [''loc-2''])] \<and>
   map item_id (snapshot (removeItem False ''loc-1'' ex_subscribed)) = [''loc-2''] \<and>
   map_option (map item_id) (stored (removeItem False ''loc-1'' ex_subscribed)) =
     Some [''loc-1'', ''loc-2'']"
  by code_simp

theorem notification_follows_write_witness:
  "\<not> isProcessing ex_subscribed \<and> queue ex_subscribed \<noteq> [] \<and> dr_connected ex_all_ack \<and>
   map view (trace (removeItem True ''loc-1'' ex_subscribed)) =
     [(Write True, [''loc-2'']), (Notify 7, [''loc-2''])] \<and>
   map_option (map item_id) (stored (removeItem True ''loc-1'' ex_subscribed)) = Some [''loc-2''] \<and>
   map view (trace (snd (processQueue ex_all_ack ex_subscribed))) =
     [(Post, []), (Post, []), (Write True, []), (Notify 7, [])] \<and>
   map view (trace (fst (snd (enqueue ex_env ''photo_upload'' Map.empty None ex_subscribed)))) =
     [(Write True, [''loc-1'', ''loc-2'', ''u-1'']), (Notify 7, [''loc-1'', ''loc-2'', ''u-1''])]"
proof -
  note w = notification_follows_write [of ex_env "''photo_upload''" Map.empty None ex_subscribed
      True "''loc-1''" ex_all_ack]
  have t0: "trace ex_subscribed = []"
    by (simp add: ex_subscribed_def subscribe_def restarted_def initialize_def new_manager_def)
  have l0: "listeners ex_subscribed = [7]"
    by (simp add: ex_subscribed_def subscribe_def restarted_def initialize_def new_manager_def)
  have snap: "map item_id (snapshot (removeItem True ''loc-1'' ex_subscribed)) = [''loc-2'']"
    by code_simp
  from w have "trace (removeItem True ''loc-1'' ex_subscribed) =
      trace ex_subscribed @ [EvSetItem (snapshot (removeItem True ''loc-1'' ex_subscribed)) True] @
        map (\<lambda>l. EvListener l (snapshot (removeItem True ''loc-1'' ex_subscribed)))
          (listeners ex_subscribed)"
    and "stored (removeItem True ''loc-1'' ex_subscribed) =
           Some (snapshot (removeItem True ''loc-1'' ex_subscribed))"
    unfolding Let_def by simp_all
  then have a: "map view (trace (removeItem True ''loc-1'' ex_subscribed)) =
       [(Write True, [''loc-2'']), (Notify 7, [''loc-2''])]"
    and b: "map_option (map item_id) (stored (removeItem True ''loc-1'' ex_subscribed)) =
       Some [''loc-2'']"
    by (simp_all add: t0 l0 snap)
  have c: "map view (trace (snd (processQueue ex_all_ack ex_subscribed))) =
     [(Post, []), (Post, []), (Write True, []), (Notify 7, [])]"
    by code_simp
  have d: "map view (trace (fst (snd (enqueue ex_env ''photo_upload'' Map.empty None ex_subscribed)))) =
     [(Write True, [''loc-1'', ''loc-2'', ''u-1'']), (Notify 7, [''loc-1'', ''loc-2'', ''u-1''])]"
    by code_simp
  have g: "\<not> isProcessing ex_subscribed" "queue ex_subscribed \<noteq> []" "dr_connected ex_all_ack"
    by code_simp+
  from g a b c d show ?thesis by blast
qed

text \<open>
  What remains of this when invocations overlap.  In every schedule a drain calls the
  subscribers only when its own write has settled, directly after it, and all its other
  steps add quiet events only.  The snapshot the subscribers receive is the queue at
  that moment, which is the one written only if nothing changed the queue since it was
  serialised.
\<close>

lemma io_only_finally_begin: "io_only s (snd (finally_begin err s))"
  by (simp add: finally_begin_def Let_def io_only_set_flags)

lemma io_only_advance: "io_only s (snd (advance now batch s))"
proof (induction batch arbitrary: s)
  case Nil
  show ?case by (simp add: io_only_finally_begin)
next
  case (Cons item rest)
  show ?case
  proof (cases "processItem_begin now item s")
    case None
    with Cons.IH [of s] show ?thesis by simp
  next
    case (Some b)
    then show ?thesis by (cases b) (auto dest: io_only_processItem_begin)
  qed
qed

lemma step_write_then_notify:
  "step now (SetItemSettled ok) (AwaitSetItem items err) s = Some (p, s') \<Longrightarrow>
   trace s' = trace s @ [EvSetItem items ok] @ map (\<lambda>l. EvListener l (snapshot s)) (listeners s) \<and>
   snapshot s' = snapshot s \<and>
   stored s' = (if ok then Some items else stored s)"
  by (auto simp: notifyListeners_def snapshot_def)

lemma step_otherwise_quiet:
  assumes "step now ev p s = Some (p', s')"
    and "\<And>ok. ev \<noteq> SetItemSettled ok"
  shows "io_only s s'"
proof (cases ev)
  case Call
  with assms(1) show ?thesis
    by (cases p) (auto simp: io_only_refl split: if_splits)
next
  case (NetInfo connected)
  have "io_only s (snd (advance now (select_batch (set_flags True s)) (set_flags True s)))"
    by (rule io_only_trans [OF io_only_set_flags io_only_advance])
  with NetInfo assms(1) show ?thesis
    by (cases p) (auto simp: io_only_refl Let_def split: if_splits)
next
  case (PostSettled out)
  show ?thesis
  proof (cases p)
    case (AwaitPost item itemIndex rest)
    obtain e s1 where f: "processItem_finish now item itemIndex (executeAction_result out) s = (e, s1)"
      by (cases "processItem_finish now item itemIndex (executeAction_result out) s")
    have s1: "io_only s s1"
      using io_only_processItem_finish [of s now item itemIndex "executeAction_result out"] f
      by simp
    show ?thesis
    proof (cases e)
      case None
      with assms(1) PostSettled AwaitPost f have "s' = snd (advance now rest s1)" by auto
      with s1 io_only_advance [of s1 now rest] show ?thesis by (auto intro: io_only_trans)
    next
      case (Some x)
      with assms(1) PostSettled AwaitPost f have "s' = snd (finally_begin (Some x) s1)" by auto
      with s1 io_only_finally_begin [of s1 "Some x"] show ?thesis by (auto intro: io_only_trans)
    qed
  qed (use assms(1) PostSettled in auto)
next
  case (SetItemSettled ok)
  with assms(2) [of ok] show ?thesis by simp
qed

text \<open>
  The two overlapping drains of \<open>ex_schedule\<close>, with subscriber 7 listening and stopped
  after invocation \<open>B\<close> has returned: \<open>B\<close> wrote the queue while it still held
  \<open>loc-2\<close>, invocation \<open>A\<close> removed that item before the write settled, and the
  subscriber is told the queue is empty while the store holds \<open>loc-2\<close>.
\<close>

lemma overlapping_drains_notify_newer_queue:
  "map_option (\<lambda>r. (filter (\<lambda>e. fst e \<noteq> Post) (map view (trace (mgr r))),
                     map_option (map item_id) (stored (mgr r))))
     (run (take 8 ex_schedule) (ex_two_pending\<lparr>mgr := subscribe 7 (mgr ex_two_pending)\<rparr>)) =
   Some ([(Write True, [''loc-2'']), (Notify 7, [])], Some [''loc-2''])"
  by code_simp

subsection \<open>The queue stays sorted\<close>

lemma compare_items_le: "compare_items a b \<le> 0 \<longleftrightarrow> in_order a b"
  by (auto simp: compare_items_def in_order_def)

lemma in_order_total: "\<not> in_order a b \<Longrightarrow> in_order b a"
  by (auto simp: in_order_def)

lemma in_order_trans: "in_order a b \<Longrightarrow> in_order b c \<Longrightarrow> in_order a c"
  by (auto simp: in_order_def)

lemma ordered_iff: "ordered s \<longleftrightarrow> sorted_wrt (\<lambda>a b. in_order (heap s a) (heap s b)) (queue s)"
  by (simp add: ordered_def snapshot_def sorted_wrt_map)

lemma sorted_insert_by:
  assumes "sorted_wrt (\<lambda>a b. in_order (h a) (h b)) xs"
  shows "sorted_wrt (\<lambda>a b. in_order (h a) (h b)) (insert_by (\<lambda>a b. compare_items (h a) (h b)) x xs)"
  using assms
proof (induction xs)
  case Nil
  then show ?case by simp
next
  case (Cons y ys)
  show ?case
  proof (cases "in_order (h x) (h y)")
    case True
    with Cons.prems have "\<forall>z\<in>set ys. in_order (h x) (h z)"
      by (auto intro: in_order_trans)
    with True Cons.prems show ?thesis by (simp add: compare_items_le)
  next
    case False
    then have "in_order (h y) (h x)" by (rule in_order_total)
    with False Cons show ?thesis by (simp add: compare_items_le set_insert_by)
  qed
qed

lemma sorted_sort_by:
  "sorted_wrt (\<lambda>a b. in_order (h a) (h b)) (sort_by (\<lambda>a b. compare_items (h a) (h b)) xs)"
  unfolding sort_by_def by (induction xs) (simp_all add: sorted_insert_by)

lemma ordered_sortQueue: "ordered (sortQueue s)"
  by (simp add: ordered_iff sortQueue_def sorted_sort_by)

lemma ordered_cong:
  "heap s' = heap s \<Longrightarrow> queue s' = queue s \<Longrightarrow> ordered s' = ordered s"
  by (simp add: ordered_iff)

lemma ordered_enqueue: "ordered (fst (snd (enqueue env t p options s)))"
proof -
  have "ordered (fst (snd (enqueue env t p options s))) =
        ordered (sortQueue (push (new_item (env_uuid env) t p options (env_now env)) s))"
    by (rule ordered_cong) (simp_all add: enqueue_def Let_def notifyListeners_def persistQueue_def)
  then show ?thesis by (simp add: ordered_sortQueue)
qed

lemma narrows_refl: "narrows s s"
  unfolding narrows_def by (auto intro: exI [of _ "\<lambda>x. True"])

lemma narrows_trans: "narrows s s1 \<Longrightarrow> narrows s1 s2 \<Longrightarrow> narrows s s2"
proof -
  assume a: "narrows s s1" and b: "narrows s1 s2"
  from a obtain P where P: "queue s1 = filter P (queue s)" by (auto simp: narrows_def)
  from b obtain Q where Q: "queue s2 = filter Q (queue s1)" by (auto simp: narrows_def)
  from P Q have "queue s2 = filter (\<lambda>x. P x \<and> Q x) (queue s)" by (simp add: conj_commute)
  then have "\<exists>R. queue s2 = filter R (queue s)" by blast
  moreover from a b have "\<forall>r. priority (heap s2 r) = priority (heap s r) \<and>
      timestamp (heap s2 r) = timestamp (heap s r) \<and> item_id (heap s2 r) = item_id (heap s r)"
    by (simp add: narrows_def)
  moreover from a b have "next_ref s2 = next_ref s" by (simp add: narrows_def)
  ultimately show ?thesis by (simp add: narrows_def)
qed

lemma narrows_ordered: "narrows s s' \<Longrightarrow> ordered s \<Longrightarrow> ordered s'"
  unfolding narrows_def ordered_iff in_order_def
  by (auto simp: sorted_wrt_filter)

lemma narrows_upd_obj:
  "(\<And>x. priority (f x) = priority x \<and> timestamp (f x) = timestamp x \<and> item_id (f x) = item_id x) \<Longrightarrow>
   narrows s (upd_obj r f s)"
  unfolding narrows_def upd_obj_def by (auto intro: exI [of _ "\<lambda>x. True"])

lemma narrows_upd_obj':
  "narrows s s1 \<Longrightarrow> (\<And>x. priority (f x) = priority x \<and> timestamp (f x) = timestamp x \<and> item_id (f x) = item_id x) \<Longrightarrow>
   narrows s (upd_obj r f s1)"
  by (rule narrows_trans [OF _ narrows_upd_obj])

lemma narrows_filter_out_id: "narrows s (filter_out_id i s)"
  unfolding narrows_def filter_out_id_def by auto

lemma narrows_emit: "narrows s (emitServerUpdate t d s)"
  unfolding narrows_def emitServerUpdate_def by (auto intro: exI [of _ "\<lambda>x. True"])

lemma narrows_set_flags: "narrows s (set_flags b s)"
  unfolding narrows_def set_flags_def by (auto intro: exI [of _ "\<lambda>x. True"])

lemma narrows_handleConflict: "narrows s (handleConflict now item serverData s)"
  unfolding handleConflict_def Let_def
  by (auto split: option.split ConflictResolution.split
      intro!: narrows_refl narrows_upd_obj' narrows_upd_obj narrows_filter_out_id
        narrows_trans [OF narrows_filter_out_id narrows_emit])

lemma narrows_processItem_begin:
  "processItem_begin now item s = Some (k, s1) \<Longrightarrow> narrows s s1"
  unfolding processItem_begin_def Let_def
  by (auto split: option.splits simp: narrows_def upd_obj_def intro: exI [of _ "\<lambda>x. True"])

lemma narrows_catch_block: "narrows s (snd (catch_block item k msg s))"
  unfolding catch_block_def Let_def
  by (auto split: option.split intro!: narrows_refl narrows_upd_obj' narrows_upd_obj)

lemma narrows_processItem_finish: "narrows s (snd (processItem_finish now item k result s))"
  unfolding processItem_finish_def Let_def
  by (auto split: outcome.split option.split
      intro!: narrows_refl narrows_handleConflict narrows_catch_block
        narrows_trans [OF narrows_upd_obj narrows_filter_out_id])

lemma narrows_processItem: "narrows s (snd (processItem e item s))"
  unfolding processItem_def
  by (auto split: option.split
      intro: narrows_refl narrows_trans [OF narrows_processItem_begin narrows_processItem_finish])

lemma narrows_processBatch: "narrows s (snd (processBatch w k batch s))"
proof (induction batch arbitrary: k s)
  case Nil
  show ?case by (simp add: narrows_refl)
next
  case (Cons item rest)
  obtain err s1 where p: "processItem (w k) item s = (err, s1)" by (cases "processItem (w k) item s")
  have s1: "narrows s s1" using narrows_processItem [of s "w k" item] p by simp
  show ?case
  proof (cases err)
    case None
    with p s1 Cons.IH [of s1 "Suc k"] show ?thesis by (auto intro: narrows_trans)
  next
    case (Some e)
    with p s1 show ?thesis by simp
  qed
qed

lemma narrows_fold_retry: "narrows s (fold retry_if_failed rs s)"
proof (induction rs arbitrary: s)
  case Nil
  show ?case by (simp add: narrows_refl)
next
  case (Cons a rs)
  have "narrows s (retry_if_failed a s)"
    unfolding retry_if_failed_def
    by (auto intro!: narrows_refl narrows_upd_obj' narrows_upd_obj)
  with Cons.IH [of "retry_if_failed a s"] show ?case by (auto intro: narrows_trans)
qed

text \<open>The invariant: the queue and the stored queue are both in order.\<close>

lemma inv_persist_notify:
  assumes "ordered s" and "stored_ordered s"
  shows "ordered (notifyListeners (persistQueue ok s))"
    and "stored_ordered (notifyListeners (persistQueue ok s))"
    and "ordered (persistQueue ok s)"
    and "stored_ordered (persistQueue ok s)"
  using assms
  by (simp_all add: ordered_def stored_ordered_def notifyListeners_def persistQueue_def snapshot_def)

lemma stored_ordered_cong: "stored s' = stored s \<Longrightarrow> stored_ordered s' = stored_ordered s"
  by (simp add: stored_ordered_def)

lemma snapshot_initialize:
  "stored s = Some items \<Longrightarrow> snapshot (initialize s) = items"
proof (rule nth_equalityI)
  assume st: "stored s = Some items"
  show "length (snapshot (initialize s)) = length items"
    using st by (simp add: snapshot_def initialize_def)
  fix i assume "i < length (snapshot (initialize s))"
  then have "i < length items" using st by (simp add: snapshot_def initialize_def)
  then show "snapshot (initialize s) ! i = items ! i"
    using st by (simp add: snapshot_def initialize_def)
qed

lemma inv_initialize:
  assumes "ordered s" and "stored_ordered s"
  shows "ordered (initialize s) \<and> stored_ordered (initialize s)"
proof (cases "stored s")
  case None
  with assms show ?thesis by (simp add: initialize_def)
next
  case (Some items)
  have "stored (initialize s) = stored s" using Some by (simp add: initialize_def)
  with assms Some snapshot_initialize [OF Some] show ?thesis
    by (simp add: ordered_def stored_ordered_def)
qed

lemma stored_processBatch: "stored (snd (processBatch w k batch s)) = stored s"
  using io_only_processBatch [of s w k batch] by (simp add: io_only_def)

lemma inv_processQueue:
  assumes "ordered s" and "stored_ordered s"
  shows "ordered (snd (processQueue denv s)) \<and> stored_ordered (snd (processQueue denv s))"
proof (cases "isProcessing s \<or> queue s = [] \<or> \<not> dr_connected denv")
  case True
  with assms show ?thesis by (auto simp: processQueue_def)
next
  case False
  obtain err s2 where b: "processBatch (dr_attempt denv) 0 (select_batch (set_flags True s))
      (set_flags True s) = (err, s2)"
    by (cases "processBatch (dr_attempt denv) 0 (select_batch (set_flags True s)) (set_flags True s)")
  have "narrows (set_flags True s) s2"
    using narrows_processBatch [of "set_flags True s" "dr_attempt denv" 0
        "select_batch (set_flags True s)"] b by simp
  with narrows_set_flags [of s True] have "narrows s s2" by (rule narrows_trans)
  then have "narrows s (set_flags False s2)"
    by (rule narrows_trans) (rule narrows_set_flags)
  with assms(1) have o: "ordered (set_flags False s2)" by (rule narrows_ordered [rotated])
  have "stored s2 = stored s"
    using stored_processBatch [of "dr_attempt denv" 0 "select_batch (set_flags True s)"
        "set_flags True s"] b by (simp add: set_flags_def)
  then have "stored (set_flags False s2) = stored s" by (simp add: set_flags_def)
  with assms(2) have so: "stored_ordered (set_flags False s2)" by (simp add: stored_ordered_def)
  have s': "snd (processQueue denv s) =
      notifyListeners (persistQueue (dr_write_ok denv) (set_flags False s2))"
    using False b by (simp add: processQueue_def Let_def)
  show ?thesis unfolding s' using inv_persist_notify [OF o so] by simp
qed

lemma inv_removeItem:
  assumes "ordered s" and "stored_ordered s"
  shows "ordered (removeItem ok i s) \<and> stored_ordered (removeItem ok i s)"
proof -
  have o: "ordered (filter_out_id i s)"
    using narrows_filter_out_id assms(1) by (rule narrows_ordered)
  have so: "stored_ordered (filter_out_id i s)"
    using assms(2) by (simp add: stored_ordered_def filter_out_id_def)
  show ?thesis unfolding removeItem_def using inv_persist_notify [OF o so] by simp
qed

lemma inv_retryItem:
  assumes "ordered s" and "stored_ordered s"
  shows "ordered (fst (retryItem ok i s)) \<and> stored_ordered (fst (retryItem ok i s))"
proof (cases "findIndex i s")
  case None
  with assms show ?thesis by (simp add: retryItem_def)
next
  case (Some k)
  let ?s1 = "upd_obj (queue s ! k) (\<lambda>q. q\<lparr>status := pending\<rparr>) s"
  let ?s2 = "upd_obj (queue ?s1 ! k) (\<lambda>q. q\<lparr>retryCount := 0\<rparr>) ?s1"
  have "narrows s ?s2" by (intro narrows_upd_obj' narrows_upd_obj) simp_all
  with assms(1) have o: "ordered ?s2" by (rule narrows_ordered [rotated])
  have so: "stored_ordered ?s2" using assms(2) by (simp add: stored_ordered_def upd_obj_def)
  have "fst (retryItem ok i s) = persistQueue ok ?s2"
    using Some by (simp add: retryItem_def Let_def)
  then show ?thesis using inv_persist_notify [OF o so] by simp
qed

lemma stored_fold_retry: "stored (fold retry_if_failed rs s) = stored s"
  by (induction rs arbitrary: s) (simp_all add: retry_if_failed_def upd_obj_def)

lemma inv_retryAllFailed:
  assumes "ordered s" and "stored_ordered s"
  shows "ordered (fst (retryAllFailed ok s)) \<and> stored_ordered (fst (retryAllFailed ok s))"
proof -
  have o: "ordered (fold retry_if_failed (queue s) s)"
    using narrows_fold_retry assms(1) by (rule narrows_ordered)
  have so: "stored_ordered (fold retry_if_failed (queue s) s)"
    using assms(2) by (simp add: stored_ordered_def stored_fold_retry)
  show ?thesis unfolding retryAllFailed_def using inv_persist_notify [OF o so] by simp
qed

lemma inv_clearOldItems:
  assumes "ordered s" and "stored_ordered s"
  shows "ordered (clearOldItems now ok m s) \<and> stored_ordered (clearOldItems now ok m s)"
proof -
  let ?P = "\<lambda>q. status (heap s q) \<noteq> completed \<or>
                 timestamp (heap s q) > now - (case m of None \<Rightarrow> 24 * 60 * 60 * 1000 | Some m \<Rightarrow> m)"
  have "narrows s (s\<lparr>queue := filter ?P (queue s)\<rparr>)"
    unfolding narrows_def by auto
  with assms(1) have o: "ordered (s\<lparr>queue := filter ?P (queue s)\<rparr>)"
    by (rule narrows_ordered [rotated])
  have so: "stored_ordered (s\<lparr>queue := filter ?P (queue s)\<rparr>)"
    using assms(2) by (simp add: stored_ordered_def)
  show ?thesis unfolding clearOldItems_def Let_def using inv_persist_notify [OF o so] by simp
qed

lemma inv_enqueue:
  assumes "stored_ordered s"
  shows "stored_ordered (fst (snd (enqueue env t p options s)))"
proof -
  let ?s2 = "sortQueue (push (new_item (env_uuid env) t p options (env_now env)) s)"
  have o: "ordered ?s2" by (rule ordered_sortQueue)
  have so: "stored_ordered ?s2" using assms by (simp add: stored_ordered_def sortQueue_def push_def)
  have "fst (snd (enqueue env t p options s)) = notifyListeners (persistQueue (env_write_ok env) ?s2)"
    by (simp add: enqueue_def Let_def)
  then show ?thesis using inv_persist_notify [OF o so] by simp
qed

lemma reachable_inv: "reachable s \<Longrightarrow> ordered s \<and> stored_ordered s"
proof (induction rule: reachable.induct)
  case first_start
  show ?case by (simp add: ordered_def stored_ordered_def snapshot_def new_manager_def)
next
  case (restart s)
  then show ?case by (simp add: ordered_def stored_ordered_def snapshot_def new_manager_def)
next
  case (do_initialize s)
  then show ?case using inv_initialize by blast
next
  case (do_enqueue s env t p options)
  then show ?case using ordered_enqueue inv_enqueue by blast
next
  case (do_processQueue s denv)
  then show ?case using inv_processQueue by blast
next
  case (do_removeItem s write_ok i)
  then show ?case using inv_removeItem by blast
next
  case (do_retryItem s write_ok i)
  then show ?case using inv_retryItem by blast
next
  case (do_retryAllFailed s write_ok)
  then show ?case using inv_retryAllFailed by blast
next
  case (do_clearOldItems s now write_ok maxAgeMs)
  then show ?case using inv_clearOldItems by blast
next
  case (do_subscribe s l)
  then show ?case by (simp add: ordered_def stored_ordered_def snapshot_def subscribe_def)
next
  case (do_unsubscribe s l)
  then show ?case by (simp add: ordered_def stored_ordered_def snapshot_def unsubscribe_def)
qed

lemma narrows_persistQueue: "narrows s (persistQueue ok s)"
  unfolding narrows_def persistQueue_def by (auto intro: exI [of _ "\<lambda>x. True"])

lemma narrows_notifyListeners: "narrows s (notifyListeners s)"
  unfolding narrows_def notifyListeners_def by (auto intro: exI [of _ "\<lambda>x. True"])

lemma narrows_removeItem: "narrows s (removeItem ok i s)"
  unfolding removeItem_def
  by (rule narrows_trans [OF narrows_filter_out_id
        narrows_trans [OF narrows_persistQueue narrows_notifyListeners]])

lemma narrows_retryItem: "narrows s (fst (retryItem ok i s))"
proof (cases "findIndex i s")
  case None
  then show ?thesis by (simp add: retryItem_def narrows_refl)
next
  case (Some k)
  let ?s1 = "upd_obj (queue s ! k) (\<lambda>q. q\<lparr>status := pending\<rparr>) s"
  let ?s2 = "upd_obj (queue ?s1 ! k) (\<lambda>q. q\<lparr>retryCount := 0\<rparr>) ?s1"
  have "narrows s ?s2" by (intro narrows_upd_obj' narrows_upd_obj) simp_all
  then have "narrows s (persistQueue ok ?s2)"
    by (rule narrows_trans) (rule narrows_persistQueue)
  then show ?thesis using Some by (simp add: retryItem_def Let_def)
qed

lemma narrows_retryAllFailed: "narrows s (fst (retryAllFailed ok s))"
  unfolding retryAllFailed_def
  using narrows_trans [OF narrows_fold_retry narrows_persistQueue] by simp

lemma narrows_clearOldItems: "narrows s (clearOldItems now ok m s)"
proof -
  let ?P = "\<lambda>q. status (heap s q) \<noteq> completed \<or>
                 timestamp (heap s q) > now - (case m of None \<Rightarrow> 24 * 60 * 60 * 1000 | Some m \<Rightarrow> m)"
  have "narrows s (s\<lparr>queue := filter ?P (queue s)\<rparr>)"
    unfolding narrows_def by auto
  then have "narrows s (persistQueue ok (s\<lparr>queue := filter ?P (queue s)\<rparr>))"
    by (rule narrows_trans) (rule narrows_persistQueue)
  then show ?thesis by (simp add: clearOldItems_def Let_def)
qed

lemma narrows_processQueue: "narrows s (snd (processQueue denv s))"
proof (cases "isProcessing s \<or> queue s = [] \<or> \<not> dr_connected denv")
  case True
  then show ?thesis by (auto simp: processQueue_def narrows_refl)
next
  case False
  obtain err s2 where b: "processBatch (dr_attempt denv) 0 (select_batch (set_flags True s))
      (set_flags True s) = (err, s2)"
    by (cases "processBatch (dr_attempt denv) 0 (select_batch (set_flags True s)) (set_flags True s)")
  have "narrows (set_flags True s) s2"
    using narrows_processBatch [of "set_flags True s" "dr_attempt denv" 0
        "select_batch (set_flags True s)"] b by simp
  with narrows_set_flags [of s True] have "narrows s s2" by (rule narrows_trans)
  then have "narrows s (set_flags False s2)"
    by (rule narrows_trans) (rule narrows_set_flags)
  then have "narrows s (persistQueue (dr_write_ok denv) (set_flags False s2))"
    by (rule narrows_trans) (rule narrows_persistQueue)
  then have "narrows s (notifyListeners (persistQueue (dr_write_ok denv) (set_flags False s2)))"
    by (rule narrows_trans) (rule narrows_notifyListeners)
  moreover have "snd (processQueue denv s) =
      notifyListeners (persistQueue (dr_write_ok denv) (set_flags False s2))"
    using False b by (simp add: processQueue_def Let_def)
  ultimately show ?thesis by simp
qed

text \<open>The requests of a drain.\<close>

lemma posts_append: "posts (xs @ ys) = posts xs @ posts ys"
  by (induction xs rule: posts.induct) simp_all

lemma posts_listener_calls: "posts (map (\<lambda>l. EvListener l x) ls) = []"
  by (induction ls) simp_all

lemma posts_notifyListeners: "posts (trace (notifyListeners s)) = posts (trace s)"
  by (simp add: notifyListeners_def posts_append posts_listener_calls)

lemma posts_persistQueue: "posts (trace (persistQueue ok s)) = posts (trace s)"
  by (simp add: persistQueue_def posts_append)

lemma posts_quiet_upd_obj: "posts (trace (upd_obj r f s)) = posts (trace s)"
  by (simp add: upd_obj_def)

lemma posts_handleConflict: "posts (trace (handleConflict now item serverData s)) = posts (trace s)"
  unfolding handleConflict_def Let_def
  by (auto split: option.split ConflictResolution.split
      simp: upd_obj_def filter_out_id_def emitServerUpdate_def posts_append)

lemma posts_catch_block: "posts (trace (snd (catch_block item k msg s))) = posts (trace s)"
  unfolding catch_block_def Let_def
  by (auto split: option.split simp: upd_obj_def)

lemma posts_processItem_finish:
  "posts (trace (snd (processItem_finish now item k result s))) = posts (trace s)"
  unfolding processItem_finish_def Let_def
  by (auto split: outcome.split option.split
      simp: posts_handleConflict posts_catch_block upd_obj_def filter_out_id_def)

lemma posts_processItem_begin:
  "processItem_begin now item s = Some (k, s1) \<Longrightarrow> posts (trace s1) = posts (trace s) @ [item]"
  unfolding processItem_begin_def Let_def
  by (auto split: option.splits simp: upd_obj_def posts_append)

lemma posts_processItem:
  "posts (trace (snd (processItem e item s))) = posts (trace s) \<or>
   posts (trace (snd (processItem e item s))) = posts (trace s) @ [item]"
  unfolding processItem_def
  by (auto split: option.split simp: posts_processItem_finish dest: posts_processItem_begin)

lemma posts_processBatch:
  assumes "sorted_wrt R batch"
  shows "\<exists>attempted. posts (trace (snd (processBatch w k batch s))) = posts (trace s) @ attempted \<and>
           sorted_wrt R attempted \<and> set attempted \<subseteq> set batch"
  using assms
proof (induction batch arbitrary: k s)
  case Nil
  then show ?case by simp
next
  case (Cons item rest)
  obtain err s1 where p: "processItem (w k) item s = (err, s1)" by (cases "processItem (w k) item s")
  from posts_processItem [of "w k" item s] p
  obtain first where f: "posts (trace s1) = posts (trace s) @ first" "first = [] \<or> first = [item]"
    by auto
  show ?case
  proof (cases err)
    case (Some e)
    with p f show ?thesis by (intro exI [of _ first]) auto
  next
    case None
    from Cons.prems have "sorted_wrt R rest" by simp
    from Cons.IH [OF this, of "Suc k" s1]
    obtain att where a: "posts (trace (snd (processBatch w (Suc k) rest s1))) = posts (trace s1) @ att"
      "sorted_wrt R att" "set att \<subseteq> set rest"
      by blast
    from Cons.prems a(3) have "\<forall>x\<in>set att. R item x" by auto
    with a(2) f(2) have "sorted_wrt R (first @ att)" by auto
    moreover have "set (first @ att) \<subseteq> set (item # rest)" using a(3) f(2) by auto
    moreover have "posts (trace (snd (processBatch w k (item # rest) s))) =
        posts (trace s) @ (first @ att)"
      using p None a(1) f(1) by simp
    ultimately show ?thesis by blast
  qed
qed

lemma posts_processQueue:
  assumes "ordered s"
  shows "\<exists>attempted.
           posts (trace (snd (processQueue denv s))) = posts (trace s) @ attempted \<and>
           sorted_wrt in_order (map (heap s) attempted) \<and>
           set attempted \<subseteq> {r \<in> set (queue s). selectable (heap s r)}"
proof (cases "isProcessing s \<or> queue s = [] \<or> \<not> dr_connected denv")
  case True
  then have "snd (processQueue denv s) = s" by (auto simp: processQueue_def)
  then show ?thesis by (intro exI [of _ "[]"]) simp
next
  case False
  let ?R = "\<lambda>a b. in_order (heap s a) (heap s b)"
  let ?s1 = "set_flags True s"
  obtain err s2 where b: "processBatch (dr_attempt denv) 0 (select_batch ?s1) ?s1 = (err, s2)"
    by (cases "processBatch (dr_attempt denv) 0 (select_batch ?s1) ?s1")
  have sel: "select_batch ?s1 = take syncBatchSize (filter (\<lambda>r. selectable (heap s r)) (queue s))"
    by (simp add: select_batch_def set_flags_def)
  from assms have "sorted_wrt ?R (queue s)" by (simp add: ordered_iff)
  then have "sorted_wrt ?R (select_batch ?s1)"
    unfolding sel by (intro sorted_wrt_take sorted_wrt_filter)
  from posts_processBatch [OF this, of "dr_attempt denv" 0 ?s1] b
  obtain att where a: "posts (trace s2) = posts (trace ?s1) @ att" "sorted_wrt ?R att"
    "set att \<subseteq> set (select_batch ?s1)"
    by auto
  have "set (select_batch ?s1) \<subseteq> {r \<in> set (queue s). selectable (heap s r)}"
    unfolding sel by (auto dest: in_set_takeD)
  with a(3) have sub: "set att \<subseteq> {r \<in> set (queue s). selectable (heap s r)}" by blast
  have s': "snd (processQueue denv s) =
      notifyListeners (persistQueue (dr_write_ok denv) (set_flags False s2))"
    using False b by (simp add: processQueue_def Let_def)
  have "posts (trace (snd (processQueue denv s))) = posts (trace s) @ att"
    unfolding s' using a(1)
    by (simp add: posts_notifyListeners posts_persistQueue set_flags_def)
  with a(2) sub show ?thesis by (auto simp: sorted_wrt_map)
qed

text \<open>
  Claim C5.  The queue is sorted by priority descending, then timestamp ascending:
  \<open>enqueue\<close> leaves it sorted whatever it was before (it sorts after appending); every
  other operation keeps a sorted queue sorted; hence the queue is sorted in every state
  the manager reaches from a first start, across restarts; and a drain of a sorted queue
  sends its requests, all for selectable entries of the queue, in that order.
\<close>

theorem queue_always_sorted:
  "ordered (fst (snd (enqueue env t p options s))) \<and>
   (ordered s \<longrightarrow>
      ordered (snd (processQueue denv s)) \<and>
      ordered (removeItem write_ok i s) \<and>
      ordered (fst (retryItem write_ok i s)) \<and>
      ordered (fst (retryAllFailed write_ok s)) \<and>
      ordered (clearOldItems now write_ok maxAgeMs s)) \<and>
   (reachable s \<longrightarrow> ordered s) \<and>
   (ordered s \<longrightarrow>
      (\<exists>attempted.
          posts (trace (snd (processQueue denv s))) = posts (trace s) @ attempted \<and>
          sorted_wrt in_order (map (heap s) attempted) \<and>
          set attempted \<subseteq> {r \<in> set (queue s). selectable (heap s r)}))"
proof -
  have a: "ordered (fst (snd (enqueue env t p options s)))"
    by (rule ordered_enqueue)
  have b: "ordered s \<longrightarrow>
      ordered (snd (processQueue denv s)) \<and>
      ordered (removeItem write_ok i s) \<and>
      ordered (fst (retryItem write_ok i s)) \<and>
      ordered (fst (retryAllFailed write_ok s)) \<and>
      ordered (clearOldItems now write_ok maxAgeMs s)"
    using narrows_ordered [OF narrows_processQueue] narrows_ordered [OF narrows_removeItem]
      narrows_ordered [OF narrows_retryItem] narrows_ordered [OF narrows_retryAllFailed]
      narrows_ordered [OF narrows_clearOldItems]
    by blast
  have c: "reachable s \<longrightarrow> ordered s"
    using reachable_inv by blast
  have d: "ordered s \<longrightarrow>
      (\<exists>attempted.
          posts (trace (snd (processQueue denv s))) = posts (trace s) @ attempted \<and>
          sorted_wrt in_order (map (heap s) attempted) \<and>
          set attempted \<subseteq> {r \<in> set (queue s). selectable (heap s r)})"
    using posts_processQueue by blast
  from a b c d show ?thesis by blast
qed

theorem queue_always_sorted_witness:
  "reachable ex_four \<and>
   ordered ex_four \<and>
   map item_id (snapshot ex_four) = [''out'', ''in'', ''task'', ''photo''] \<and>
   map priority (snapshot ex_four) = [100, 100, 80, 20] \<and>
   map timestamp (snapshot ex_four) = [1800, 2000, 1500, 1000] \<and>
   posts (trace (snd (processQueue ex_all_ack ex_four))) = [3, 1, 2, 0] \<and>
   sorted_wrt in_order (map (heap ex_four) [3, 1, 2, 0]) \<and>
   ordered (snd (processQueue ex_all_ack ex_four))"
proof -
  note w = queue_always_sorted [of "ex_offline_at ''x'' 0" "''photo_upload''" Map.empty None
      ex_four ex_all_ack True "''in''" 0 None]
  have r: "reachable ex_four"
    unfolding ex_four_def by (intro reachable.do_enqueue reachable.first_start)
  with w have o: "ordered ex_four" by blast
  with w have o': "ordered (snd (processQueue ex_all_ack ex_four))" by blast
  from w o obtain attempted
    where att: "posts (trace (snd (processQueue ex_all_ack ex_four))) =
                  posts (trace ex_four) @ attempted"
      "sorted_wrt in_order (map (heap ex_four) attempted)"
    by blast
  have v: "map item_id (snapshot ex_four) = [''out'', ''in'', ''task'', ''photo'']"
    "map priority (snapshot ex_four) = [100, 100, 80, 20]"
    "map timestamp (snapshot ex_four) = [1800, 2000, 1500, 1000]"
    "posts (trace ex_four) = []"
    "posts (trace (snd (processQueue ex_all_ack ex_four))) = [3, 1, 2, 0]"
    by code_simp+
  from att v(4,5) have "attempted = [3, 1, 2, 0]" by simp
  with att(2) have "sorted_wrt in_order (map (heap ex_four) [3, 1, 2, 0])" by simp
  with r o o' v show ?thesis by blast
qed

subsection \<open>Ids stay pairwise different\<close>

lemma distinct_map_insert_by:
  "distinct (map f (insert_by c x xs)) = distinct (map f (x # xs))"
  by (induction xs) (auto simp: set_insert_by)

lemma distinct_map_sort_by: "distinct (map f (sort_by c xs)) = distinct (map f xs)"
proof (induction xs)
  case Nil
  show ?case by (simp add: sort_by_def)
next
  case (Cons x xs)
  have "sort_by c (x # xs) = insert_by c x (sort_by c xs)" by (simp add: sort_by_def)
  with Cons show ?case by (simp add: distinct_map_insert_by set_sort_by)
qed

lemma well_formed_step:
  assumes "narrows s s'"
    and "stored s' = stored s \<or> stored s' = Some (snapshot s')"
    and "well_formed s"
  shows "well_formed s'"
proof -
  from assms(1) obtain P where P: "queue s' = filter P (queue s)"
    and ids: "\<And>r. item_id (heap s' r) = item_id (heap s r)"
    and n: "next_ref s' = next_ref s"
    by (auto simp: narrows_def)
  have i: "ids_distinct s'"
    using assms(3) by (simp add: well_formed_def ids_distinct_def P ids distinct_map_filter)
  have r: "refs_allocated s'"
    using assms(3) by (simp add: well_formed_def refs_allocated_def P n list_all_iff)
  have "distinct (map item_id (snapshot s'))"
    using i by (simp add: ids_distinct_def snapshot_def comp_def)
  with assms(2,3) have "case stored s' of None \<Rightarrow> True | Some items \<Rightarrow> distinct (map item_id items)"
    by (auto simp: well_formed_def)
  with i r show ?thesis by (simp add: well_formed_def)
qed

lemma stored_processQueue:
  "stored (snd (processQueue denv s)) = stored s \<or>
   stored (snd (processQueue denv s)) = Some (snapshot (snd (processQueue denv s)))"
proof (cases "isProcessing s \<or> queue s = [] \<or> \<not> dr_connected denv")
  case True
  then show ?thesis by (auto simp: processQueue_def)
next
  case False
  obtain err s2 where b: "processBatch (dr_attempt denv) 0 (select_batch (set_flags True s))
      (set_flags True s) = (err, s2)"
    by (cases "processBatch (dr_attempt denv) 0 (select_batch (set_flags True s)) (set_flags True s)")
  have st: "stored s2 = stored s"
    using stored_processBatch [of "dr_attempt denv" 0 "select_batch (set_flags True s)"
        "set_flags True s"] b by (simp add: set_flags_def)
  have "snd (processQueue denv s) =
      notifyListeners (persistQueue (dr_write_ok denv) (set_flags False s2))"
    using False b by (simp add: processQueue_def Let_def)
  then show ?thesis
    using st by (simp add: notifyListeners_def persistQueue_def set_flags_def snapshot_def)
qed

lemma stored_removeItem:
  "stored (removeItem ok i s) = stored s \<or>
   stored (removeItem ok i s) = Some (snapshot (removeItem ok i s))"
  by (simp add: removeItem_def notifyListeners_def persistQueue_def filter_out_id_def snapshot_def)

lemma stored_retryItem:
  "stored (fst (retryItem ok i s)) = stored s \<or>
   stored (fst (retryItem ok i s)) = Some (snapshot (fst (retryItem ok i s)))"
  by (cases "findIndex i s")
    (simp_all add: retryItem_def Let_def persistQueue_def upd_obj_def snapshot_def)

lemma stored_retryAllFailed:
  "stored (fst (retryAllFailed ok s)) = stored s \<or>
   stored (fst (retryAllFailed ok s)) = Some (snapshot (fst (retryAllFailed ok s)))"
  by (simp add: retryAllFailed_def persistQueue_def snapshot_def stored_fold_retry)

lemma stored_clearOldItems:
  "stored (clearOldItems now ok m s) = stored s \<or>
   stored (clearOldItems now ok m s) = Some (snapshot (clearOldItems now ok m s))"
  by (simp add: clearOldItems_def Let_def persistQueue_def snapshot_def)

lemma well_formed_enqueue:
  assumes "well_formed s"
    and "env_uuid env \<notin> item_id ` set (snapshot s)"
  shows "well_formed (fst (snd (enqueue env t p options s)))"
proof -
  let ?item = "new_item (env_uuid env) t p options (env_now env)"
  let ?s1 = "push ?item s"
  let ?s2 = "sortQueue ?s1"
  from assms(1) have old: "\<And>r. r \<in> set (queue s) \<Longrightarrow> r < next_ref s"
    by (simp add: well_formed_def refs_allocated_def list_all_iff)
  then have same: "map (\<lambda>q. item_id (heap ?s1 q)) (queue s) = map (\<lambda>q. item_id (heap s q)) (queue s)"
    by (auto simp: push_def)
  have "distinct (map (\<lambda>q. item_id (heap ?s1 q)) (queue ?s1))"
  proof -
    have "map (\<lambda>q. item_id (heap ?s1 q)) (queue ?s1) =
          map (\<lambda>q. item_id (heap s q)) (queue s) @ [env_uuid env]"
      using same by (simp add: push_def new_item_def)
    moreover have "distinct (map (\<lambda>q. item_id (heap s q)) (queue s))"
      using assms(1) by (simp add: well_formed_def ids_distinct_def)
    moreover have "env_uuid env \<notin> set (map (\<lambda>q. item_id (heap s q)) (queue s))"
      using assms(2) by (simp add: snapshot_def image_image)
    ultimately show ?thesis by simp
  qed
  then have i: "ids_distinct ?s2"
    by (simp add: ids_distinct_def sortQueue_def distinct_map_sort_by)
  have r: "refs_allocated ?s2"
    using old by (auto simp: refs_allocated_def sortQueue_def push_def list_all_iff set_sort_by
        less_Suc_eq)
  have e: "fst (snd (enqueue env t p options s)) =
      notifyListeners (persistQueue (env_write_ok env) ?s2)"
    by (simp add: enqueue_def Let_def)
  have st: "case stored s of None \<Rightarrow> True | Some items \<Rightarrow> distinct (map item_id items)"
    using assms(1) by (simp add: well_formed_def)
  show ?thesis
    unfolding e using i r st
    by (simp add: well_formed_def ids_distinct_def refs_allocated_def notifyListeners_def
        persistQueue_def snapshot_def comp_def sortQueue_def push_def)
qed

lemma well_formed_initialize:
  assumes "well_formed s"
  shows "well_formed (initialize s)"
proof (cases "stored s")
  case None
  with assms show ?thesis by (simp add: initialize_def)
next
  case (Some items)
  have snap: "map (heap (initialize s)) (queue (initialize s)) = items"
    using snapshot_initialize [OF Some] by (simp add: snapshot_def)
  have "map (\<lambda>q. item_id (heap (initialize s) q)) (queue (initialize s)) =
        map item_id (map (heap (initialize s)) (queue (initialize s)))"
    by (simp add: comp_def)
  also have "\<dots> = map item_id items" by (simp only: snap)
  finally have i: "ids_distinct (initialize s)"
    using assms Some by (simp add: ids_distinct_def well_formed_def)
  have r: "refs_allocated (initialize s)"
    using Some by (simp add: refs_allocated_def initialize_def list_all_iff)
  have "stored (initialize s) = stored s" using Some by (simp add: initialize_def)
  with assms i r show ?thesis by (simp add: well_formed_def)
qed

text \<open>
  Pairwise different ids are an invariant: a new manager has them, a restart and every
  operation keep them, and so does \<open>enqueue\<close> when the generated id is not yet in the
  queue, as \<^verbatim>\<open>uuidv4\<close> promises.
\<close>

lemma ids_stay_distinct:
  "well_formed (new_manager None)"
  "well_formed s \<Longrightarrow> well_formed (new_manager (stored s))"
  "well_formed s \<Longrightarrow> well_formed (initialize s)"
  "well_formed s \<Longrightarrow> env_uuid env \<notin> item_id ` set (snapshot s) \<Longrightarrow>
     well_formed (fst (snd (enqueue env t p options s)))"
  "well_formed s \<Longrightarrow> well_formed (snd (processQueue denv s))"
  "well_formed s \<Longrightarrow> well_formed (removeItem ok i s)"
  "well_formed s \<Longrightarrow> well_formed (fst (retryItem ok i s))"
  "well_formed s \<Longrightarrow> well_formed (fst (retryAllFailed ok s))"
  "well_formed s \<Longrightarrow> well_formed (clearOldItems now ok m s)"
  "well_formed s \<Longrightarrow> ids_distinct s"
proof -
  show "well_formed (new_manager None)"
    by (simp add: well_formed_def ids_distinct_def refs_allocated_def new_manager_def)
  show "well_formed s \<Longrightarrow> well_formed (new_manager (stored s))"
    by (simp add: well_formed_def ids_distinct_def refs_allocated_def new_manager_def)
  show "well_formed s \<Longrightarrow> well_formed (initialize s)"
    by (rule well_formed_initialize)
  show "well_formed s \<Longrightarrow> env_uuid env \<notin> item_id ` set (snapshot s) \<Longrightarrow>
     well_formed (fst (snd (enqueue env t p options s)))"
    by (rule well_formed_enqueue)
  show "well_formed s \<Longrightarrow> well_formed (snd (processQueue denv s))"
    by (rule well_formed_step [OF narrows_processQueue stored_processQueue])
  show "well_formed s \<Longrightarrow> well_formed (removeItem ok i s)"
    by (rule well_formed_step [OF narrows_removeItem stored_removeItem])
  show "well_formed s \<Longrightarrow> well_formed (fst (retryItem ok i s))"
    by (rule well_formed_step [OF narrows_retryItem stored_retryItem])
  show "well_formed s \<Longrightarrow> well_formed (fst (retryAllFailed ok s))"
    by (rule well_formed_step [OF narrows_retryAllFailed stored_retryAllFailed])
  show "well_formed s \<Longrightarrow> well_formed (clearOldItems now ok m s)"
    by (rule well_formed_step [OF narrows_clearOldItems stored_clearOldItems])
  show "well_formed s \<Longrightarrow> ids_distinct s"
    by (simp add: well_formed_def)
qed

end
